theory Spec2Isabelle
  imports Main
begin

section \<open>Strings, offsets and the character classes of Python's \<open>re\<close>\<close>

text \<open>
  A Python \<open>str\<close> is modelled as a \<open>string\<close>; one \<open>char\<close> stands for one code point
  in the range 0..255, so \<open>length\<close> is Python's \<open>len\<close> and every offset below is a code
  point offset, as in \<open>match.start()\<close> and \<open>match.end()\<close>. A span is the pair
  \<open>match.span()\<close>.
\<close>

type_synonym span = "nat \<times> nat"

datatype error = IndexError | ValueError

definition newline :: char where
  "newline = CHR 0x0A"

text \<open>\<open>\s\<close> and \<open>str.strip\<close> share one whitespace class; below 256 it is this set.\<close>

definition is_space :: "char \<Rightarrow> bool" where
  "is_space c \<longleftrightarrow>
     c \<in> set [CHR 0x09, CHR 0x0A, CHR 0x0B, CHR 0x0C, CHR 0x0D, CHR 0x1C, CHR 0x1D,
               CHR 0x1E, CHR 0x1F, CHR 0x20, CHR 0x85, CHR 0xA0]"

text \<open>\<open>\w\<close>: the alphanumeric code points and the underscore; below 256 it is this set.\<close>

definition is_word :: "char \<Rightarrow> bool" where
  "is_word c \<longleftrightarrow>
     (let n = (of_char c :: nat) in
        (48 \<le> n \<and> n \<le> 57) \<or> (65 \<le> n \<and> n \<le> 90) \<or> n = 95 \<or> (97 \<le> n \<and> n \<le> 122) \<or>
        n = 170 \<or> n = 178 \<or> n = 179 \<or> n = 181 \<or> n = 185 \<or> n = 186 \<or>
        n = 188 \<or> n = 189 \<or> n = 190 \<or>
        (192 \<le> n \<and> n \<le> 214) \<or> (216 \<le> n \<and> n \<le> 246) \<or> (248 \<le> n \<and> n \<le> 255))"

text \<open>\<open>s[a:b]\<close> for offsets \<open>0 \<le> a\<close>, \<open>0 \<le> b\<close>: clipped to the string, empty when \<open>b \<le> a\<close>.\<close>

definition slice :: "nat \<Rightarrow> nat \<Rightarrow> 'a list \<Rightarrow> 'a list" where
  "slice a b s = take (b - a) (drop a s)"

text \<open>\<open>s[i]\<close> for \<open>0 \<le> i\<close> raises IndexError out of range.\<close>

definition getitem :: "'a list \<Rightarrow> nat \<Rightarrow> error + 'a" where
  "getitem s i = (if i < length s then Inr (s ! i) else Inl IndexError)"

definition lstrip :: "string \<Rightarrow> string" where
  "lstrip s = dropWhile is_space s"

definition strip :: "string \<Rightarrow> string" where
  "strip s = rev (dropWhile is_space (rev (dropWhile is_space s)))"

text \<open>\<open>str(n)\<close> for an integer.\<close>

fun str_nat :: "nat \<Rightarrow> string" where
  "str_nat n = (if n < 10 then [''0123456789'' ! n]
                else str_nat (n div 10) @ [''0123456789'' ! (n mod 10)])"

declare str_nat.simps [simp del]

definition str_int :: "int \<Rightarrow> string" where
  "str_int n = (if n < 0 then CHR ''-'' # str_nat (nat (- n)) else str_nat (nat n))"

section \<open>\<open>re.finditer\<close>\<close>

text \<open>
  A compiled pattern is modelled by what it matches at one offset: \<open>m s p\<close> is
  \<open>Some (e, g)\<close> when the pattern matches \<open>s\<close> at offset \<open>p\<close>, the match ends at \<open>e\<close> and
  its groups are \<open>g\<close>. \<open>re.finditer\<close> scans left to right and resumes at the end of each
  match. Every pattern of \<open>formatters.py\<close> consumes at least one character; after an empty
  match the scan moves one character on.
\<close>

type_synonym 'g matcher = "string \<Rightarrow> nat \<Rightarrow> (nat \<times> 'g) option"
type_synonym 'g rematch = "span \<times> 'g"

function finditer_from :: "'g matcher \<Rightarrow> string \<Rightarrow> nat \<Rightarrow> 'g rematch list" where
  "finditer_from m s p =
     (if length s < p then []
      else case m s p of
             None \<Rightarrow> finditer_from m s (Suc p)
           | Some (e, g) \<Rightarrow> ((p, e), g) # finditer_from m s (if p < e then e else Suc p))"
  by pat_completeness auto
termination
  by (relation "measure (\<lambda>(m, s, p). Suc (length s) - p)") (auto split: if_splits)

declare finditer_from.simps [simp del]

definition finditer :: "'g matcher \<Rightarrow> string \<Rightarrow> 'g rematch list" where
  "finditer m s = finditer_from m s 0"

text \<open>A pattern without metacharacters (\<open>//\<close>, \<open>--\<close>, two backticks): the literal itself.\<close>

definition lit :: "string \<Rightarrow> unit matcher" where
  "lit d s p = (if take (length d) (drop p s) = d then Some (p + length d, ()) else None)"

text \<open>\<open>(?<=\w)_(?=\w)\<close>: an underscore with a word character on each side.\<close>

definition inner_underscore :: "unit matcher" where
  "inner_underscore s p =
     (if 0 < p \<and> Suc p < length s \<and> s ! p = CHR ''_'' \<and> is_word (s ! (p - 1)) \<and> is_word (s ! Suc p)
      then Some (Suc p, ()) else None)"

text \<open>
  The lazy \<open>.*?\<close> followed by a closing token: the number of characters skipped before the
  first place where the token stands; \<open>.\<close> does not match a newline.
\<close>

fun lazy_dot_until :: "string \<Rightarrow> string \<Rightarrow> nat option" where
  "lazy_dot_until tok [] = (if tok = [] then Some 0 else None)"
| "lazy_dot_until tok (c # cs) =
     (if take (length tok) (c # cs) = tok then Some 0
      else if c = newline then None
      else map_option Suc (lazy_dot_until tok cs))"

text \<open>A backtick, \<open>.*?\<close>, a backtick.\<close>

definition backtick_span :: "unit matcher" where
  "backtick_span s p =
     (if take 1 (drop p s) = ''`''
      then map_option (\<lambda>k. (p + 1 + k + 1, ())) (lazy_dot_until ''`'' (drop (p + 1) s))
      else None)"

text \<open>
  \<open>\[([^\]]*?) ""(.*?)""\]\<close> after its opening bracket: \<open>link_groups k s\<close> tries the lazy
  group 1 at length \<open>k\<close>, then \<open>k + 1\<close>, ..., as long as no \<open>]\<close> is crossed, and returns the
  lengths of group 1 and group 2.
\<close>

fun link_groups :: "nat \<Rightarrow> string \<Rightarrow> (nat \<times> nat) option" where
  "link_groups k [] = None"
| "link_groups k (c # cs) =
     (case (if take 3 (c # cs) = '' \"\"'' then lazy_dot_until ''\"\"]'' (drop 3 (c # cs)) else None) of
        Some j \<Rightarrow> Some (k, j)
      | None \<Rightarrow> if c = CHR '']'' then None else link_groups (Suc k) cs)"

text \<open>The groups of a link match are \<open>(span(1), span(2))\<close>.\<close>

definition link_pattern :: "(span \<times> span) matcher" where
  "link_pattern s p =
     (if take 1 (drop p s) = ''[''
      then map_option
             (\<lambda>(k, j). (p + 1 + k + 3 + j + 3, ((p + 1, p + 1 + k), (p + 1 + k + 3, p + 1 + k + 3 + j))))
             (link_groups 0 (drop (p + 1) s))
      else None)"

text \<open>\<open>\[""(.*?)""\]\<close>; the group is \<open>span(1)\<close>.\<close>

definition image_pattern :: "span matcher" where
  "image_pattern s p =
     (if take 3 (drop p s) = ''[\"\"''
      then map_option (\<lambda>j. (p + 3 + j + 3, (p + 3, p + 3 + j)))
             (lazy_dot_until ''\"\"]'' (drop (p + 3) s))
      else None)"

text \<open>
  \<open>re.sub\<close>: the text between the matches is kept, each match is replaced by the expansion
  of the template on its groups.
\<close>

fun re_sub_from :: "('g rematch \<Rightarrow> string) \<Rightarrow> string \<Rightarrow> nat \<Rightarrow> 'g rematch list \<Rightarrow> string" where
  "re_sub_from repl s pos [] = drop pos s"
| "re_sub_from repl s pos (((b, e), g) # ms) =
     slice pos b s @ repl ((b, e), g) @ re_sub_from repl s e ms"

definition re_sub :: "'g matcher \<Rightarrow> (string \<Rightarrow> 'g rematch \<Rightarrow> string) \<Rightarrow> string \<Rightarrow> string" where
  "re_sub m repl s = re_sub_from (repl s) s 0 (finditer m s)"

section \<open>Protected spans\<close>

definition sorted_pair :: "span \<Rightarrow> span" where
  "sorted_pair sp = (min (fst sp) (snd sp), max (fst sp) (snd sp))"

definition spans_intersect :: "span \<Rightarrow> span \<Rightarrow> bool" where
  "spans_intersect span1 span2 =
     (let (lo1, hi1) = sorted_pair span1; (lo2, hi2) = sorted_pair span2
      in hi1 \<ge> lo2 \<and> hi2 \<ge> lo1)"

text \<open>A predicate receives \<open>match.string\<close> and \<open>match.span()\<close>.\<close>

type_synonym pred = "string \<Rightarrow> span \<Rightarrow> bool"

definition not_in_link :: pred where
  "not_in_link s sp = (\<not> list_ex (\<lambda>m. spans_intersect sp (snd (snd m))) (finditer link_pattern s))"

definition not_in_backticks :: pred where
  "not_in_backticks s sp = (\<not> list_ex (\<lambda>m. spans_intersect sp (fst m)) (finditer backtick_span s))"

definition filter_matches :: "'g matcher \<Rightarrow> string \<Rightarrow> pred list option \<Rightarrow> 'g rematch list" where
  "filter_matches pattern s preds =
     (let ps = (case preds of None \<Rightarrow> [not_in_link, not_in_backticks] | Some ps \<Rightarrow> ps)
      in filter (\<lambda>m. list_all (\<lambda>p. p s (fst m)) ps) (finditer pattern s))"

section \<open>The balanced-delimiter substituter\<close>

text \<open>
  \<open>start_sub, end_sub = sub\<close> unpacks a string of exactly two characters and raises
  ValueError on any other length; the source catches it and uses \<open>sub\<close> on both sides.
\<close>

definition unpack_pair :: "string \<Rightarrow> error + (string \<times> string)" where
  "unpack_pair sub = (case sub of [a, b] \<Rightarrow> Inr ([a], [b]) | _ \<Rightarrow> Inl ValueError)"

definition unpack_sub :: "string \<Rightarrow> string \<times> string" where
  "unpack_sub sub = (case unpack_pair sub of Inr p \<Rightarrow> p | Inl e \<Rightarrow> (sub, sub))"

text \<open>\<open>zip(delims, delims)\<close> over one iterator: consecutive pairs, a last single one dropped.\<close>

fun zip_self :: "'a list \<Rightarrow> ('a \<times> 'a) list" where
  "zip_self (a # b # xs) = (a, b) # zip_self xs"
| "zip_self _ = []"

definition sub_pair :: "string \<Rightarrow> string \<Rightarrow> string \<Rightarrow> ('g rematch \<times> 'g rematch) \<Rightarrow> string" where
  "sub_pair start_sub end_sub string pr =
     (let start_delim = fst (fst pr); end_delim = fst (snd pr);
          start = take (fst start_delim) string;
          data = slice (snd start_delim) (fst end_delim) string;
          end = drop (snd end_delim) string
      in start @ start_sub @ data @ end_sub @ end)"

definition sub_balanced_delims ::
    "'g matcher \<Rightarrow> string \<Rightarrow> string \<Rightarrow> pred list option \<Rightarrow> string" where
  "sub_balanced_delims delim_pattern sub string preds =
     (let (start_sub, end_sub) = unpack_sub sub;
          delims = filter_matches delim_pattern string preds;
          balanced_delims = zip_self delims
      in foldl (sub_pair start_sub end_sub) string (rev balanced_delims))"

section \<open>The stages\<close>

text \<open>
  Modelled from the spec: the decorator \<open>util.prime_coroutine_generator\<close> is not among the
  sources. After the specification a stage is an object with one "transform next line" step
  and its own state, created with the pipeline; so each formatter is modelled by what one
  \<open>send(line)\<close> computes, the loop body from one \<open>yield\<close> to the next. Only
  \<open>format_lists\<close> keeps state between two calls; its state is passed in and returned.
\<close>

definition format_links :: "string \<Rightarrow> string" where
  "format_links line =
     re_sub link_pattern
       (\<lambda>s m. ''['' @ slice (fst (fst (snd m))) (snd (fst (snd m))) s @ '']('' @
               slice (fst (snd (snd m))) (snd (snd (snd m))) s @ '')'')
       line"

definition format_images :: "string \<Rightarrow> string" where
  "format_images line =
     re_sub image_pattern (\<lambda>s m. ''![]('' @ slice (fst (snd m)) (snd (snd m)) s @ '')'') line"

definition format_italic_text :: "string \<Rightarrow> string" where
  "format_italic_text line = sub_balanced_delims (lit ''//'') ''_'' line None"

definition format_strikethrough_text :: "string \<Rightarrow> string" where
  "format_strikethrough_text line =
     (if line \<noteq> replicate (length line) CHR ''-''
      then sub_balanced_delims (lit ''--'') ''~'' line None
      else line)"

definition format_code_blocks :: "string \<Rightarrow> string" where
  "format_code_blocks line = sub_balanced_delims (lit ''``'') ''`'' line (Some [not_in_link])"

text \<open>
  \<open>re.search(r'^=+', line)\<close> and \<open>re.search(r'=+$', line)\<close>: the group of the match, if any.
  \<open>$\<close> stands at the end of the string and before a newline that ends the string.
\<close>

definition start_delim :: "string \<Rightarrow> string option" where
  "start_delim line =
     (let r = takeWhile (\<lambda>c. c = CHR ''='') line in if r = [] then None else Some r)"

definition end_delim :: "string \<Rightarrow> string option" where
  "end_delim line =
     (let body = (if line \<noteq> [] \<and> last line = newline then butlast line else line);
          r = takeWhile (\<lambda>c. c = CHR ''='') (rev body)
      in if r = [] then None else Some r)"

definition format_headers :: "int \<Rightarrow> string \<Rightarrow> string" where
  "format_headers padding line =
     (case start_delim line of
        None \<Rightarrow> line
      | Some sd \<Rightarrow>
          if sd = line then line
          else (case end_delim line of
                  None \<Rightarrow> line
                | Some ed \<Rightarrow>
                    if ed \<noteq> sd then line
                    else (let level = length sd
                          in replicate (nat (padding + int level)) CHR ''#'' @ '' '' @
                             lstrip (slice level (length line - level) line))))"

text \<open>
  \<open>defaultlist.defaultlist(lambda: 1)\<close>: reading or writing index \<open>i\<close> first fills the list
  with the default up to \<open>i\<close>; \<open>del h[i + 1:]\<close> and \<open>clear\<close> are those of \<open>list\<close>.
\<close>

definition dl_fill :: "int list \<Rightarrow> nat \<Rightarrow> int list" where
  "dl_fill h i = h @ replicate (Suc i - length h) 1"

definition dl_getitem :: "int list \<Rightarrow> nat \<Rightarrow> int \<times> int list" where
  "dl_getitem h i = (let h' = dl_fill h i in (h' ! i, h'))"

definition dl_setitem :: "int list \<Rightarrow> nat \<Rightarrow> int \<Rightarrow> int list" where
  "dl_setitem h i v = (dl_fill h i)[i := v]"

record list_state =
  ordered_list_history :: "int list"
  sequential_empty_lines :: int

definition init_list_state :: list_state where
  "init_list_state = \<lparr>ordered_list_history = [], sequential_empty_lines = 0\<rparr>"

text \<open>\<open>re.match(r'^\s*([-|\+])\s', line)\<close>: \<open>start(1)\<close> of the match, if any.\<close>

definition list_item_match :: "string \<Rightarrow> nat option" where
  "list_item_match line =
     (let i = length (takeWhile is_space line)
      in if Suc i < length line \<and> line ! i \<in> set ''-|+'' \<and> is_space (line ! Suc i)
         then Some i else None)"

definition format_lists :: "list_state \<Rightarrow> string \<Rightarrow> error + (string \<times> list_state)" where
  "format_lists st line =
     (case list_item_match line of
        Some i \<Rightarrow>
          (case getitem line i of
             Inl e \<Rightarrow> Inl e
           | Inr c \<Rightarrow>
               (let (line', h) =
                      (if c = CHR ''-'' then (line, ordered_list_history st)
                       else (let (n, h1) = dl_getitem (ordered_list_history st) i;
                                 line' = take i line @ str_int n @ ''.'' @ drop (i + 1) line;
                                 (n', h2) = dl_getitem h1 i
                             in (line', dl_setitem h2 i (n' + 1))))
                in Inr (line', st\<lparr>ordered_list_history := take (i + 1) h\<rparr>)))
      | None \<Rightarrow>
          if strip line \<noteq> []
          then Inr (line, st\<lparr>sequential_empty_lines := 0, ordered_list_history := []\<rparr>)
          else (let k = sequential_empty_lines st + 1
                in Inr (line, st\<lparr>sequential_empty_lines := k,
                                  ordered_list_history :=
                                    (if k \<ge> 2 then [] else ordered_list_history st)\<rparr>)))"

definition format_inner_underscores :: "string \<Rightarrow> string" where
  "format_inner_underscores line =
     foldl (\<lambda>line m. take (fst (fst m)) line @ [CHR 0x5C, CHR ''_''] @ drop (snd (fst m)) line) line
       (rev (filter_matches inner_underscore line None))"

section \<open>The pipeline\<close>

definition format_rednotebook_as_markdown ::
    "int \<Rightarrow> list_state \<Rightarrow> string \<Rightarrow> error + (string \<times> list_state)" where
  "format_rednotebook_as_markdown header_padding st line =
     format_lists st
       (format_strikethrough_text
         (format_italic_text
           (format_code_blocks
             (format_headers header_padding
               (format_images
                 (format_links
                   (format_inner_underscores line)))))))"

text \<open>Sending a sequence of lines to one stage or pipeline instance, collecting what it yields.\<close>

fun send_all ::
    "('st \<Rightarrow> string \<Rightarrow> error + (string \<times> 'st)) \<Rightarrow> 'st \<Rightarrow> string list \<Rightarrow> error + (string list \<times> 'st)" where
  "send_all f st [] = Inr ([], st)"
| "send_all f st (l # ls) =
     (case f st l of
        Inl e \<Rightarrow> Inl e
      | Inr (l', st') \<Rightarrow>
          (case send_all f st' ls of
             Inl e \<Rightarrow> Inl e
           | Inr (ls', st'') \<Rightarrow> Inr (l' # ls', st'')))"

section \<open>Patterns in the words of the specification\<close>

text \<open>
  The list-item pattern as the specification words it: optional leading whitespace, then one
  marker character out of \<open>markers\<close> at some column \<open>i\<close>, then one character
  accepted by \<open>sep\<close>.
\<close>

definition item_pattern :: "string \<Rightarrow> (char \<Rightarrow> bool) \<Rightarrow> string \<Rightarrow> bool" where
  "item_pattern markers sep line =
     list_ex (\<lambda>i. list_all is_space (take i line) \<and> Suc i < length line \<and>
                   line ! i \<in> set markers \<and> sep (line ! Suc i)) [0..<length line]"

text \<open>
  The balanced-delimiter substitution as the specification words it: the matches are taken
  two by two from the left; of each pair the opening delimiter becomes the open token, the
  interior is kept, the closing delimiter becomes the close token; the text before, between
  and after the pairs is kept, and so is a last match without partner.
\<close>

fun substitute_pairs :: "string \<Rightarrow> string \<Rightarrow> string \<Rightarrow> nat \<Rightarrow> span list \<Rightarrow> string" where
  "substitute_pairs opn cls s pos (m1 # m2 # ms) =
     slice pos (fst m1) s @ opn @ slice (snd m1) (fst m2) s @ cls @
     substitute_pairs opn cls s (snd m2) ms"
| "substitute_pairs opn cls s pos ms = drop pos s"

text \<open>Spans that follow each other from \<open>pos\<close> on, without overlap, inside a string of length \<open>n\<close>.\<close>

fun ordered_from :: "nat \<Rightarrow> span list \<Rightarrow> nat \<Rightarrow> bool" where
  "ordered_from pos [] n = True"
| "ordered_from pos (m # ms) n = (pos \<le> fst m \<and> fst m \<le> snd m \<and> snd m \<le> n \<and> ordered_from (snd m) ms n)"

text \<open>
  A line without RedNotebook tokens, after the markup grammar of the specification: no two
  \<open>//\<close>, no two \<open>--\<close> and no two doubled backticks (these tokens are pairs of
  delimiters), no doubled double quote (links and images), no leading \<open>=\<close> (headers), no
  ordered list marker. Markdown's own tokens (single backticks, \<open>#\<close>, \<open>-\<close> items, escaped
  underscores) and a single \<open>//\<close> as in a URL are allowed.
\<close>

fun has_pair :: "char \<Rightarrow> char \<Rightarrow> string \<Rightarrow> bool" where
  "has_pair a b (x # y # zs) = ((x = a \<and> y = b) \<or> has_pair a b (y # zs))"
| "has_pair a b zs = False"

fun pair_count :: "char \<Rightarrow> char \<Rightarrow> string \<Rightarrow> nat" where
  "pair_count a b (x # y # zs) = (if x = a \<and> y = b then 1 else 0) + pair_count a b (y # zs)"
| "pair_count a b zs = 0"

definition ordered_item :: "string \<Rightarrow> bool" where
  "ordered_item line =
     (case list_item_match line of Some i \<Rightarrow> line ! i \<noteq> CHR ''-'' | None \<Rightarrow> False)"

definition no_rednotebook_tokens :: "string \<Rightarrow> bool" where
  "no_rednotebook_tokens line \<longleftrightarrow>
     pair_count CHR ''/'' CHR ''/'' line \<le> 1 \<and> pair_count CHR ''-'' CHR ''-'' line \<le> 1 \<and>
     pair_count CHR ''`'' CHR ''`'' line \<le> 1 \<and> \<not> has_pair CHR 0x22 CHR 0x22 line \<and>
     take 1 line \<noteq> ''='' \<and> \<not> ordered_item line"

section \<open>The underscore stage read in one pass\<close>

text \<open>
  To reason about \<open>format_inner_underscores\<close> on lines without links, the stage is read as
  one pass from the left. The pass knows whether it is inside a backtick span and whether
  the previous character is a word character; a backtick opens a span when a closing
  backtick follows before the next newline.
\<close>

definition has_close :: "string \<Rightarrow> bool" where
  "has_close cs = (lazy_dot_until ''`'' cs \<noteq> None)"

fun escape_pass :: "bool \<Rightarrow> bool \<Rightarrow> string \<Rightarrow> string" where
  "escape_pass inside pw [] = []"
| "escape_pass True pw (c # cs) = c # escape_pass (c \<noteq> CHR ''`'') (is_word c) cs"
| "escape_pass False pw (c # cs) =
     (if c = CHR ''`'' \<and> has_close cs then c # escape_pass True (is_word c) cs
      else if c = CHR ''_'' \<and> pw \<and> cs \<noteq> [] \<and> is_word (hd cs)
           then CHR 0x5C # c # escape_pass False (is_word c) cs
      else c # escape_pass False (is_word c) cs)"

text \<open>Offset \<open>p\<close> lies after the opening backtick and before the end of a backtick span.\<close>

definition inside_span :: "string \<Rightarrow> nat \<Rightarrow> bool" where
  "inside_span s p =
     list_ex (\<lambda>m. fst (fst m) < p \<and> p < snd (fst m)) (finditer backtick_span s)"

text \<open>The text from \<open>pos\<close> on, with every span of the list replaced by an escaped underscore.\<close>

fun escape_render :: "string \<Rightarrow> nat \<Rightarrow> span list \<Rightarrow> string" where
  "escape_render s pos [] = drop pos s"
| "escape_render s pos (m # ms) =
     slice pos (fst m) s @ [CHR 0x5C, CHR ''_''] @ escape_render s (snd m) ms"

section \<open>The list stage\<close>

lemma list_item_match_bound: "list_item_match line = Some i \<Longrightarrow> i < length line"
  by (auto simp: list_item_match_def Let_def split: if_splits)

lemma format_lists_total: "\<exists>out st'. format_lists st line = Inr (out, st')"
proof (cases "list_item_match line")
  case None
  then show ?thesis by (simp add: format_lists_def Let_def)
next
  case (Some i)
  then have "getitem line i = Inr (line ! i)"
    by (simp add: getitem_def list_item_match_bound)
  with Some show ?thesis
    by (simp add: format_lists_def Let_def split: prod.splits)
qed

text \<open>
  Claim C6. Sent \<open>+ a\<close>, \<open>+ b\<close>, \<open>+ c\<close>, the list stage yields \<open>1. a\<close>, \<open>2. b\<close>, \<open>3. c\<close>;
  sent \<open>+ a\<close>, an item \<open>+ x\<close> at column 2, \<open>+ b\<close>, an item \<open>+ y\<close> at column 2, it yields
  \<open>1. a\<close>, \<open>1. x\<close> at column 2, \<open>2. b\<close>, \<open>1. y\<close> at column 2: the deeper counter starts
  again at 1 after the shallower item.
\<close>

theorem ordered_list_numbering:
  "send_all format_lists init_list_state [''+ a'', ''+ b'', ''+ c'']
     = Inr ([''1. a'', ''2. b'', ''3. c''],
            \<lparr>ordered_list_history = [4], sequential_empty_lines = 0\<rparr>)
   \<and> send_all format_lists init_list_state [''+ a'', ''  + x'', ''+ b'', ''  + y'']
     = Inr ([''1. a'', ''  1. x'', ''2. b'', ''  1. y''],
            \<lparr>ordered_list_history = [3, 1, 2], sequential_empty_lines = 0\<rparr>)"
  by code_simp

text \<open>
  Claim C2 says that a single blank line never clears the ordered-list counters, so that
  blank, \<open>+ a\<close>, blank, \<open>+ b\<close> is numbered 1, 2. The list-item branch of \<open>format_lists\<close>
  does not set \<open>sequential_empty_lines\<close> back to 0, so the second blank line is counted as
  the second of a run and clears the counters: the items come out as \<open>1. a\<close> and \<open>1. b\<close>.
\<close>

theorem blank_run_survives_list_items:
  "send_all format_lists init_list_state ['''', ''+ a'', '''', ''+ b'']
     = Inr (['''', ''1. a'', '''', ''1. b''],
            \<lparr>ordered_list_history = [2], sequential_empty_lines = 2\<rparr>)"
  by code_simp

text \<open>
  Claim C7 says that a non-blank line which does not match the list-item pattern
  (whitespace, a marker \<open>-\<close> or \<open>+\<close>, one separator) is left unchanged and clears the
  counters. The character class of the pattern in \<open>format_lists\<close> also holds \<open>|\<close>: the
  line \<open>| a\<close> is not blank and has no marker \<open>-\<close> or \<open>+\<close>, whatever whitespace is taken as
  separator, yet it is numbered as an ordered item and a counter is kept.
\<close>

theorem bar_line_numbered_as_ordered_item:
  "strip ''| a'' \<noteq> [] \<and> \<not> item_pattern ''-+'' is_space ''| a'' \<and>
   format_lists init_list_state ''| a'' =
     Inr (''1. a'', \<lparr>ordered_list_history = [2], sequential_empty_lines = 0\<rparr>)"
  by code_simp

section \<open>The header stage\<close>

text \<open>
  Claim C4 says that a line with equal leading and trailing \<open>=\<close> runs is left unchanged
  when padding plus level is zero or less. \<open>format_headers\<close> has no such test: with
  padding \<open>-1\<close> the line \<open>=T=\<close> becomes a space followed by \<open>T\<close>.
\<close>

theorem header_emitted_at_level_zero:
  "format_headers (- 1) ''=T='' = '' T''"
  by code_simp

lemma count_list_replicate_same: "count_list (replicate n x) x = n"
  by (induction n) simp_all

lemma start_delim_Some:
  assumes "start_delim line = Some sd"
  shows "sd = takeWhile (\<lambda>c. c = CHR ''='') line"
  using assms unfolding start_delim_def Let_def by (simp split: if_splits)

lemma end_delim_Some:
  assumes "end_delim line = Some sd" "newline \<notin> set line"
  shows "sd = takeWhile (\<lambda>c. c = CHR ''='') (rev line)"
proof -
  from assms(2) have "\<not> (line \<noteq> [] \<and> last line = newline)"
    by (metis last_in_set)
  with assms(1) show ?thesis
    unfolding end_delim_def Let_def by (simp split: if_splits)
qed


lemma rev_constant:
  assumes "\<forall>c\<in>set xs. c = x"
  shows "rev xs = xs"
proof -
  have "replicate (length xs) x = xs" using assms by (rule replicate_length_same)
  moreover have "rev (replicate (length xs) x) = replicate (length xs) x" by (rule rev_replicate)
  ultimately show ?thesis by metis
qed

lemma both_ends:
  assumes l1: "sd @ D = R @ sd" and all_eq: "\<forall>c\<in>set sd. c = x" and D: "D \<noteq> []" "hd D \<noteq> x"
  shows "\<exists>us. D = us @ sd"
proof -
  from l1 consider us where "sd = R @ us" "us @ D = sd" | us where "sd @ us = R" "D = us @ sd"
    unfolding append_eq_append_conv2 by blast
  then show ?thesis
  proof cases
    case 1
    from D(1) have "hd D \<in> set D" by simp
    then have "hd D \<in> set (us @ D)" by simp
    with 1(2) have "hd D \<in> set sd" by simp
    with all_eq D(2) show ?thesis by blast
  next
    case 2
    then show ?thesis by blast
  qed
qed

lemma header_shape:
  assumes nl: "newline \<notin> set line"
    and sd: "start_delim line = Some sd" and ne: "sd \<noteq> line"
    and ed: "end_delim line = Some sd"
  shows "sd = replicate (length sd) CHR ''=''"
    and "line = sd @ slice (length sd) (length line - length sd) line @ sd"
proof -
  let ?P = "\<lambda>c. c = CHR ''=''"
  note sd_eq = start_delim_Some[OF sd]
  note ed_eq = end_delim_Some[OF ed nl]
  from sd_eq have all_eq: "\<forall>c\<in>set sd. c = CHR ''=''"
    by (auto dest: set_takeWhileD)
  then show rep: "sd = replicate (length sd) CHR ''=''"
    by (rule replicate_length_same[symmetric])
  define D where "D = dropWhile ?P line"
  have l1: "line = sd @ D" unfolding sd_eq D_def by simp
  with ne have Dne: "D \<noteq> []" by auto
  have hdD: "hd D \<noteq> CHR ''=''"
    using Dne hd_dropWhile[of ?P line] unfolding D_def by simp
  define R where "R = rev (dropWhile ?P (rev line))"
  have "rev line = sd @ dropWhile ?P (rev line)" unfolding ed_eq by simp
  then have "rev (rev line) = rev (sd @ dropWhile ?P (rev line))" by (rule arg_cong)
  then have "line = R @ rev sd" unfolding R_def rev_append rev_rev_ident .
  moreover have "rev sd = sd" using all_eq by (rule rev_constant)
  ultimately have l2: "line = R @ sd" by simp
  from l1 l2 have "sd @ D = R @ sd" by simp
  from both_ends[OF this all_eq Dne hdD] obtain us where "D = us @ sd" by blast
  with l1 have l3: "line = sd @ us @ sd" by simp
  have "slice (length sd) (length (sd @ us @ sd) - length sd) (sd @ us @ sd) = us"
    by (simp add: slice_def)
  with l3 have "slice (length sd) (length line - length sd) line = us" by simp
  with l3 show "line = sd @ slice (length sd) (length line - length sd) line @ sd" by simp
qed


text \<open>
  Claim C3, amended. Whenever the header stage changes a line that holds no newline, padding
  plus level is not negative, and the text between the leading and the trailing run of
  \<open>=\<close> holds neither \<open>=\<close> nor \<open>#\<close>, the number of \<open>=\<close> in the input is twice the number
  of \<open>#\<close> in the output less the padding. With padding 0, \<open>=Title=\<close> becomes \<open># Title\<close>,
  \<open>==Sub==\<close> becomes \<open>## Sub\<close> and \<open>=unbalanced\<close> stays as it is.
\<close>

theorem header_count_equation:
  "(format_headers padding line \<noteq> line \<and> newline \<notin> set line \<and>
    0 \<le> padding + int (length (takeWhile (\<lambda>c. c = CHR ''='') line)) \<and>
    CHR ''='' \<notin> set (slice (length (takeWhile (\<lambda>c. c = CHR ''='') line))
                         (length line - length (takeWhile (\<lambda>c. c = CHR ''='') line)) line) \<and>
    CHR ''#'' \<notin> set (slice (length (takeWhile (\<lambda>c. c = CHR ''='') line))
                         (length line - length (takeWhile (\<lambda>c. c = CHR ''='') line)) line)
    \<longrightarrow> int (count_list line CHR ''='')
        = (int (count_list (format_headers padding line) CHR ''#'') - padding) * 2)
   \<and> format_headers 0 ''=Title='' = ''# Title''
   \<and> format_headers 0 ''==Sub=='' = ''## Sub''
   \<and> format_headers 0 ''=unbalanced'' = ''=unbalanced''"
proof (intro conjI impI)
  let ?P = "\<lambda>c. c = CHR ''=''"
  assume h: "format_headers padding line \<noteq> line \<and> newline \<notin> set line \<and>
    0 \<le> padding + int (length (takeWhile ?P line)) \<and>
    CHR ''='' \<notin> set (slice (length (takeWhile ?P line)) (length line - length (takeWhile ?P line)) line) \<and>
    CHR ''#'' \<notin> set (slice (length (takeWhile ?P line)) (length line - length (takeWhile ?P line)) line)"
  define lv where "lv = length (takeWhile ?P line)"
  define mid where "mid = slice lv (length line - lv) line"
  from h have changed: "format_headers padding line \<noteq> line" and nl: "newline \<notin> set line"
    and pad: "0 \<le> padding + int lv" and no_eq: "CHR ''='' \<notin> set mid" and no_hash: "CHR ''#'' \<notin> set mid"
    unfolding mid_def lv_def by simp_all
  from changed obtain sd where sd: "start_delim line = Some sd" "sd \<noteq> line" "end_delim line = Some sd"
    unfolding format_headers_def Let_def by (auto split: option.splits if_splits)
  have lv: "length sd = lv" unfolding lv_def using start_delim_Some[OF sd(1)] by simp
  note shape = header_shape[OF nl sd]
  have out: "format_headers padding line
             = replicate (nat (padding + int lv)) CHR ''#'' @ '' '' @ lstrip mid"
    unfolding format_headers_def Let_def mid_def using sd lv by simp
  have "set (lstrip mid) \<subseteq> set mid"
    unfolding lstrip_def by (auto dest: set_dropWhileD)
  with no_hash have "CHR ''#'' \<notin> set (lstrip mid)" by auto
  then have hashes: "count_list (format_headers padding line) CHR ''#'' = nat (padding + int lv)"
    unfolding out by (simp add: count_list_replicate_same)
  have "count_list sd CHR ''='' = count_list (replicate (length sd) CHR ''='') CHR ''=''"
    using shape(1) by (rule arg_cong)
  then have c_sd: "count_list sd CHR ''='' = lv"
    unfolding count_list_replicate_same lv .
  have "count_list line CHR ''=''
        = count_list (sd @ slice (length sd) (length line - length sd) line @ sd) CHR ''=''"
    using shape(2) by (rule arg_cong)
  then have "count_list line CHR ''='' = count_list (sd @ mid @ sd) CHR ''=''"
    unfolding lv mid_def .
  then have eqs: "count_list line CHR ''='' = lv + lv"
    using no_eq c_sd by simp
  show "int (count_list line CHR ''='')
        = (int (count_list (format_headers padding line) CHR ''#'') - padding) * 2"
    unfolding eqs hashes using pad by simp
qed code_simp+

theorem header_count_equation_witness:
  "format_headers (- 1) ''==T=='' = ''# T'' \<and>
   int (count_list ''==T=='' CHR ''='')
     = (int (count_list (format_headers (- 1) ''==T=='') CHR ''#'') - (- 1)) * 2"
proof -
  have a: "format_headers (- 1) ''==T=='' \<noteq> ''==T==''" by code_simp
  have b: "newline \<notin> set ''==T==''" by code_simp
  have p: "(0::int) \<le> - 1 + int (length (takeWhile (\<lambda>c. c = CHR ''='') ''==T==''))"
    by simp
  have c: "CHR ''='' \<notin> set (slice (length (takeWhile (\<lambda>c. c = CHR ''='') ''==T==''))
             (length ''==T=='' - length (takeWhile (\<lambda>c. c = CHR ''='') ''==T=='')) ''==T=='')"
    by code_simp
  have d: "CHR ''#'' \<notin> set (slice (length (takeWhile (\<lambda>c. c = CHR ''='') ''==T==''))
             (length ''==T=='' - length (takeWhile (\<lambda>c. c = CHR ''='') ''==T=='')) ''==T=='')"
    by code_simp
  have e: "format_headers (- 1) ''==T=='' = ''# T''" by code_simp
  from header_count_equation[of "- 1" "''==T==''"] a b p c d
  have "int (count_list ''==T=='' CHR ''='')
     = (int (count_list (format_headers (- 1) ''==T=='') CHR ''#'') - (- 1)) * 2" by blast
  with e show ?thesis by simp
qed

text \<open>
  Claim C3 as stated fails: \<open>=a=b=\<close> is rewritten to \<open># a=b\<close>; the input holds three
  \<open>=\<close>, the output one \<open>#\<close>.
\<close>

theorem header_count_fails_with_inner_equals:
  "format_headers 0 ''=a=b='' = ''# a=b'' \<and>
   int (count_list ''=a=b='' CHR ''='')
     \<noteq> (int (count_list (format_headers 0 ''=a=b='') CHR ''#'') - 0) * 2"
  by code_simp

section \<open>Protected spans\<close>

lemma spans_intersect_touch:
  "fst a = snd b \<or> snd a = fst b \<Longrightarrow> spans_intersect a b"
  by (auto simp: spans_intersect_def sorted_pair_def split: prod.splits)

text \<open>
  Claim C10. The protection test reads the half-open spans as closed intervals: a match of
  any delimiter pattern that starts where a backtick span ends, or ends where one starts,
  does not pass the default predicates. In \<open>a `b`// c //\<close> the \<open>//\<close> right after the
  closing backtick is dropped, one match is left and the line is not changed.
\<close>

theorem touching_backtick_span_is_protected:
  "(m \<in> set (finditer pat line) \<and> sp \<in> set (finditer backtick_span line) \<and>
     (fst (fst m) = snd (fst sp) \<or> snd (fst m) = fst (fst sp))
     \<longrightarrow> m \<notin> set (filter_matches pat line None))
   \<and> filter_matches (lit ''//'') ''a `b`// c //'' None = [((10, 12), ())]
   \<and> format_italic_text ''a `b`// c //'' = ''a `b`// c //''"
proof (intro conjI impI)
  assume h: "m \<in> set (finditer pat line) \<and> sp \<in> set (finditer backtick_span line) \<and>
     (fst (fst m) = snd (fst sp) \<or> snd (fst m) = fst (fst sp))"
  then have "spans_intersect (fst m) (fst sp)"
    by (intro spans_intersect_touch) simp
  with h have "\<not> not_in_backticks line (fst m)"
    by (auto simp: not_in_backticks_def list_ex_iff)
  then show "m \<notin> set (filter_matches pat line None)"
    by (simp add: filter_matches_def)
next
  show "filter_matches (lit ''//'') ''a `b`// c //'' None = [((10, 12), ())]" by code_simp
next
  show "format_italic_text ''a `b`// c //'' = ''a `b`// c //''" by code_simp
qed

theorem touching_backtick_span_is_protected_witness:
  "((5, 7), ()) \<in> set (finditer (lit ''//'') ''a `b`// c //'') \<and>
   ((2, 5), ()) \<in> set (finditer backtick_span ''a `b`// c //'') \<and>
   ((5, 7), ()) \<notin> set (filter_matches (lit ''//'') ''a `b`// c //'' None)"
proof -
  have a: "((5, 7), ()) \<in> set (finditer (lit ''//'') ''a `b`// c //'')" by code_simp
  have b: "((2, 5), ()) \<in> set (finditer backtick_span ''a `b`// c //'')" by code_simp
  from touching_backtick_span_is_protected
         [of "((5, 7), ())" "lit ''//''" "''a `b`// c //''" "((2, 5), ())"] a b
  show ?thesis by simp
qed

section \<open>The pipeline\<close>

text \<open>
  Claim C1 says that no stage of the pipeline pairs or substitutes a delimiter inside a
  link's URL. The link stage runs before the code, italic and strikethrough stages, so
  when they test \<open>not_in_link\<close> the link is already rewritten and its URL is no longer
  found: the two \<open>//\<close> of two links on one line are paired and replaced. The underscore
  stage runs before the link stage and does leave the URL of the claim's example alone.
\<close>

theorem pipeline_pairs_slashes_of_link_urls:
  "format_rednotebook_as_markdown 0 init_list_state ''[a \"\"http://x\"\"] [b \"\"http://y\"\"]''
     = Inr (''[a](http:_x) [b](http:_y)'',
            \<lparr>ordered_list_history = [], sequential_empty_lines = 0\<rparr>)
   \<and> format_rednotebook_as_markdown 0 init_list_state ''[x \"\"http://a__b\"\"]''
     = Inr (''[x](http://a__b)'', \<lparr>ordered_list_history = [], sequential_empty_lines = 0\<rparr>)"
  by code_simp

text \<open>
  Claim C9. Every stage returns a line for every input: the only operation of the stages
  that can raise is the index \<open>line[i]\<close> of the list stage, and its index is always in
  range; the ValueError of unpacking a one-character replacement is caught and the
  replacement is used on both sides. So the list stage and the pipeline
  return a line and a state for every line, the empty one included, and malformed markup
  passes through: an unbalanced \<open>//\<close>, a header with runs of different length, a marker
  without content.
\<close>

theorem stages_never_raise:
  "(\<exists>out st'. format_lists st line = Inr (out, st'))
   \<and> (\<exists>out st'. format_rednotebook_as_markdown padding st line = Inr (out, st'))
   \<and> format_rednotebook_as_markdown 0 init_list_state ''''
       = Inr ('''', \<lparr>ordered_list_history = [], sequential_empty_lines = 1\<rparr>)
   \<and> unpack_pair ''_'' = Inl ValueError \<and> unpack_sub ''_'' = (''_'', ''_'')
   \<and> format_italic_text ''a // b'' = ''a // b''
   \<and> format_headers 0 ''==a='' = ''==a=''
   \<and> format_lists init_list_state ''+''
       = Inr (''+'', \<lparr>ordered_list_history = [], sequential_empty_lines = 0\<rparr>)
   \<and> format_lists init_list_state ''+ ''
       = Inr (''1. '', \<lparr>ordered_list_history = [2], sequential_empty_lines = 0\<rparr>)"
proof (intro conjI)
  show "\<exists>out st'. format_lists st line = Inr (out, st')" by (rule format_lists_total)
  show "\<exists>out st'. format_rednotebook_as_markdown padding st line = Inr (out, st')"
    unfolding format_rednotebook_as_markdown_def by (rule format_lists_total)
qed code_simp+

section \<open>The balanced-delimiter substituter\<close>

lemma ordered_from_mono: "ordered_from pos ms n \<Longrightarrow> pos' \<le> pos \<Longrightarrow> ordered_from pos' ms n"
  by (cases ms) auto

lemma ordered_from_filter: "ordered_from pos (map fst ms) n \<Longrightarrow> ordered_from pos (map fst (filter P ms)) n"
proof (induction ms arbitrary: pos)
  case Nil
  then show ?case by simp
next
  case (Cons m ms)
  then have rest: "ordered_from (snd (fst m)) (map fst (filter P ms)) n" by simp
  show ?case
  proof (cases "P m")
    case True
    with Cons.prems rest show ?thesis by simp
  next
    case False
    from Cons.prems have "pos \<le> snd (fst m)" by simp
    with rest have "ordered_from pos (map fst (filter P ms)) n" by (rule ordered_from_mono)
    with False show ?thesis by simp
  qed
qed

lemma finditer_from_ordered:
  assumes "\<And>p e g. p \<le> length s \<Longrightarrow> m s p = Some (e, g) \<Longrightarrow> p \<le> e \<and> e \<le> length s"
  shows "ordered_from p (map fst (finditer_from m s p)) (length s)"
  using assms
proof (induction m s p rule: finditer_from.induct)
  case (1 m s p)
  show ?case
  proof (cases "length s < p")
    case True
    then show ?thesis by (subst finditer_from.simps) simp
  next
    case inside: False
    show ?thesis
    proof (cases "m s p")
      case None
      with inside "1.IH"(1) "1.prems"
      have "ordered_from (Suc p) (map fst (finditer_from m s (Suc p))) (length s)" by blast
      then have "ordered_from p (map fst (finditer_from m s (Suc p))) (length s)"
        by (rule ordered_from_mono) simp
      with None inside show ?thesis by (subst finditer_from.simps) simp
    next
      case (Some eg)
      obtain e g where eg: "eg = (e, g)" by (cases eg)
      let ?q = "if p < e then e else Suc p"
      from Some eg inside "1.prems"[of p e g] have b: "p \<le> e" "e \<le> length s" by auto
      from inside Some eg "1.IH"(2) "1.prems"
      have "ordered_from ?q (map fst (finditer_from m s ?q)) (length s)" by blast
      moreover have "e \<le> ?q" by simp
      ultimately have "ordered_from e (map fst (finditer_from m s ?q)) (length s)"
        by (rule ordered_from_mono)
      with Some eg inside b show ?thesis by (subst finditer_from.simps) simp
    qed
  qed
qed

lemma lit_bounds: "p \<le> length s \<Longrightarrow> lit d s p = Some (e, g) \<Longrightarrow> p \<le> e \<and> e \<le> length s"
proof -
  assume p: "p \<le> length s" and a: "lit d s p = Some (e, g)"
  then have t: "take (length d) (drop p s) = d" and e: "e = p + length d"
    by (auto simp: lit_def split: if_splits)
  from t have "length (take (length d) (drop p s)) = length d" by simp
  then have "length d \<le> length s - p" by simp
  with p e show ?thesis by simp
qed

lemma filter_matches_lit_ordered:
  "ordered_from 0 (map fst (filter_matches (lit d) s preds)) (length s)"
  unfolding filter_matches_def finditer_def Let_def
  by (intro ordered_from_filter finditer_from_ordered) (rule lit_bounds)

lemma take_slice: "pos \<le> b \<Longrightarrow> take pos s @ slice pos b s = take b s"
  by (metis slice_def take_add le_add_diff_inverse)

lemma sub_pair_after:
  assumes "s1 \<le> e1" "e1 \<le> s2" "s2 \<le> e2" "e2 \<le> length s"
  shows "sub_pair a b (take e2 s @ x) (((s1, e1), g1), ((s2, e2), g2))
         = take s1 s @ a @ slice e1 s2 s @ b @ x"
proof -
  have 1: "take s1 (take e2 s @ x) = take s1 s" using assms by (simp add: min_def)
  have 2: "slice e1 s2 (take e2 s @ x) = slice e1 s2 s"
    using assms by (simp add: slice_def min_def take_drop)
  have 3: "drop e2 (take e2 s @ x) = x" using assms by simp
  show ?thesis unfolding sub_pair_def Let_def using 1 2 3 by simp
qed

lemma foldr_sub_pair:
  "ordered_from pos (map fst ms) (length s) \<Longrightarrow>
   foldr (\<lambda>pr acc. sub_pair a b acc pr) (zip_self ms) s
     = take pos s @ substitute_pairs a b s pos (map fst ms)"
proof (induction ms arbitrary: pos rule: zip_self.induct)
  case (1 m1 m2 ms)
  obtain s1 e1 g1 where m1: "m1 = ((s1, e1), g1)" by (metis prod.exhaust)
  obtain s2 e2 g2 where m2: "m2 = ((s2, e2), g2)" by (metis prod.exhaust)
  from "1.prems" m1 m2 have o: "pos \<le> s1" "s1 \<le> e1" "e1 \<le> s2" "s2 \<le> e2" "e2 \<le> length s"
    and rest: "ordered_from e2 (map fst ms) (length s)" by auto
  from "1.IH"[OF rest]
  have "foldr (\<lambda>pr acc. sub_pair a b acc pr) (zip_self (m1 # m2 # ms)) s
        = sub_pair a b (take e2 s @ substitute_pairs a b s e2 (map fst ms)) (m1, m2)" by simp
  also have "\<dots> = take s1 s @ a @ slice e1 s2 s @ b @ substitute_pairs a b s e2 (map fst ms)"
    unfolding m1 m2 using o by (intro sub_pair_after)
  also have "\<dots> = take pos s @ substitute_pairs a b s pos (map fst (m1 # m2 # ms))"
    using o(1) by (simp add: m1 m2 take_slice[symmetric])
  finally show ?case .
qed simp_all

text \<open>
  Claim C5. For every line, delimiter, replacement and predicate set, the substituter takes
  the matches that pass the predicates two by two from the left (first with second, third
  with fourth, ...), replaces the two delimiters of each pair, keeps the interior and all
  other text, and leaves a last match without partner as it is; the number of pairs is the
  number of surviving matches divided by two, rounded down. The line \<open>a // b // c //\<close>
  has three matches and becomes \<open>a _ b _ c //\<close>.
\<close>

theorem balanced_delims_pair_consecutively:
  "sub_balanced_delims (lit d) sub line preds
     = substitute_pairs (fst (unpack_sub sub)) (snd (unpack_sub sub)) line 0
         (map fst (filter_matches (lit d) line preds))
   \<and> length (zip_self (filter_matches (lit d) line preds))
     = length (filter_matches (lit d) line preds) div 2
   \<and> format_italic_text line
     = substitute_pairs ''_'' ''_'' line 0 (map fst (filter_matches (lit ''//'') line None))
   \<and> filter_matches (lit ''//'') ''a // b // c //'' None
     = [((2, 4), ()), ((7, 9), ()), ((12, 14), ())]
   \<and> format_italic_text ''a // b // c //'' = ''a _ b _ c //''"
proof -
  have len: "length (zip_self xs) = length xs div 2" for xs :: "'a list"
    by (induction xs rule: zip_self.induct) simp_all
  have gen: "sub_balanced_delims (lit d) sub line preds
     = substitute_pairs (fst (unpack_sub sub)) (snd (unpack_sub sub)) line 0
         (map fst (filter_matches (lit d) line preds))" for d sub line preds
    unfolding sub_balanced_delims_def Let_def
    by (simp add: split_beta foldr_conv_foldl[symmetric]
          foldr_sub_pair[OF filter_matches_lit_ordered])
  have u: "unpack_sub ''_'' = (''_'', ''_'')" by (simp add: unpack_sub_def unpack_pair_def)
  have it: "format_italic_text line
     = substitute_pairs ''_'' ''_'' line 0 (map fst (filter_matches (lit ''//'') line None))"
    unfolding format_italic_text_def gen u by simp
  have ex1: "filter_matches (lit ''//'') ''a // b // c //'' None
     = [((2, 4), ()), ((7, 9), ()), ((12, 14), ())]" by code_simp
  have ex2: "format_italic_text ''a // b // c //'' = ''a _ b _ c //''" by code_simp
  from gen len it ex1 ex2 show ?thesis by blast
qed

section \<open>Idempotence on lines without RedNotebook tokens\<close>

subsection \<open>What \<open>finditer\<close> returns\<close>

lemma finditer_from_all_None:
  assumes "\<And>p. m s p = None"
  shows "finditer_from m s q = []"
  using assms
proof (induction m s q rule: finditer_from.induct)
  case (1 m s p)
  show ?case
  proof (cases "length s < p")
    case True
    then show ?thesis by (subst finditer_from.simps) simp
  next
    case False
    with "1.IH"(1) "1.prems" have "finditer_from m s (Suc p) = []" by simp
    with False "1.prems" show ?thesis by (subst finditer_from.simps) simp
  qed
qed

lemma finditer_from_mem:
  assumes "x \<in> set (finditer_from m s q)"
  shows "m s (fst (fst x)) = Some (snd (fst x), snd x) \<and> q \<le> fst (fst x) \<and> fst (fst x) \<le> length s"
  using assms
proof (induction m s q rule: finditer_from.induct)
  case (1 m s p)
  show ?case
  proof (cases "length s < p")
    case True
    with "1.prems" show ?thesis by (subst (asm) finditer_from.simps) simp
  next
    case inside: False
    show ?thesis
    proof (cases "m s p")
      case None
      with inside "1.prems" have "x \<in> set (finditer_from m s (Suc p))"
        by (subst (asm) finditer_from.simps) simp
      with "1.IH"(1)[OF inside None] show ?thesis by auto
    next
      case (Some eg)
      obtain e g where eg: "eg = (e, g)" by (cases eg)
      let ?q = "if p < e then e else Suc p"
      from inside Some eg "1.prems" have "x = ((p, e), g) \<or> x \<in> set (finditer_from m s ?q)"
        by (subst (asm) finditer_from.simps) simp
      then show ?thesis
      proof
        assume "x = ((p, e), g)"
        with Some eg inside show ?thesis by simp
      next
        assume "x \<in> set (finditer_from m s ?q)"
        with "1.IH"(2)[OF inside Some eg[symmetric]] have
          "m s (fst (fst x)) = Some (snd (fst x), snd x) \<and> ?q \<le> fst (fst x) \<and> fst (fst x) \<le> length s"
          by simp
        moreover have "p \<le> ?q" by simp
        ultimately show ?thesis by linarith
      qed
    qed
  qed
qed

lemma finditer_from_visits:
  assumes "q \<le> p" "p \<le> length s" "m s p = Some (e, g)"
    and "\<forall>x\<in>set (finditer_from m s q). \<not> (fst (fst x) < p \<and> p < snd (fst x))"
  shows "((p, e), g) \<in> set (finditer_from m s q)"
  using assms
proof (induction m s q rule: finditer_from.induct)
  case (1 m s q)
  from "1.prems" have inside: "\<not> length s < q" by simp
  show ?case
  proof (cases "m s q")
    case None
    with "1.prems"(3) have "q \<noteq> p" by auto
    with "1.prems"(1) have le: "Suc q \<le> p" by simp
    have eq: "finditer_from m s q = finditer_from m s (Suc q)"
      using None inside by (subst finditer_from.simps) simp
    from "1.IH"(1)[OF inside None le "1.prems"(2,3)] "1.prems"(4) eq
    show ?thesis by simp
  next
    case (Some eg)
    obtain e' g' where eg: "eg = (e', g')" by (cases eg)
    let ?q = "if q < e' then e' else Suc q"
    have eq: "finditer_from m s q = ((q, e'), g') # finditer_from m s ?q"
      using Some eg inside by (subst finditer_from.simps) simp
    show ?thesis
    proof (cases "q = p")
      case True
      with Some eg "1.prems"(3) eq show ?thesis by simp
    next
      case False
      with "1.prems"(1) have lt: "q < p" by simp
      from "1.prems"(4) eq have "\<not> (q < p \<and> p < e')" by simp
      with lt have "e' \<le> p" by simp
      with lt have le: "?q \<le> p" by simp
      from "1.prems"(4) eq
      have rest: "\<forall>x\<in>set (finditer_from m s ?q). \<not> (fst (fst x) < p \<and> p < snd (fst x))" by simp
      from "1.IH"(2)[OF inside Some eg[symmetric] le "1.prems"(2,3) rest] eq
      show ?thesis by simp
    qed
  qed
qed

lemma ordered_from_lower: "ordered_from pos ms n \<Longrightarrow> y \<in> set ms \<Longrightarrow> pos \<le> fst y"
proof (induction ms arbitrary: pos)
  case Nil
  then show ?case by simp
next
  case (Cons m ms)
  then show ?case by (cases "y = m") (auto dest: Cons.IH)
qed

lemma ordered_from_disjoint:
  "ordered_from pos ms n \<Longrightarrow> x \<in> set ms \<Longrightarrow> y \<in> set ms \<Longrightarrow>
   x = y \<or> snd x \<le> fst y \<or> snd y \<le> fst x"
proof (induction ms arbitrary: pos)
  case Nil
  then show ?case by simp
next
  case (Cons m ms)
  from Cons.prems(1) have rest: "ordered_from (snd m) ms n" by simp
  show ?case
  proof (cases "x = m")
    case xm: True
    show ?thesis
    proof (cases "y = m")
      case True
      with xm show ?thesis by simp
    next
      case False
      with Cons.prems(3) have "y \<in> set ms" by simp
      from ordered_from_lower[OF rest this] xm show ?thesis by simp
    qed
  next
    case xn: False
    with Cons.prems(2) have x: "x \<in> set ms" by simp
    show ?thesis
    proof (cases "y = m")
      case True
      from ordered_from_lower[OF rest x] True show ?thesis by simp
    next
      case False
      with Cons.prems(3) have "y \<in> set ms" by simp
      from Cons.IH[OF rest x this] show ?thesis .
    qed
  qed
qed

subsection \<open>Backtick spans\<close>

lemma lazy_backtick_Some:
  "lazy_dot_until ''`'' cs = Some k \<Longrightarrow>
   k < length cs \<and> cs ! k = CHR ''`'' \<and> (\<forall>i<k. cs ! i \<noteq> CHR ''`'')"
proof (induction cs arbitrary: k)
  case Nil
  then show ?case by simp
next
  case (Cons c cs)
  show ?case
  proof (cases "c = CHR ''`''")
    case True
    with Cons.prems show ?thesis by simp
  next
    case False
    with Cons.prems obtain k' where k': "lazy_dot_until ''`'' cs = Some k'" "k = Suc k'"
      by (auto split: if_splits)
    from Cons.IH[OF k'(1)] False k'(2) show ?thesis
      by (auto simp: nth_Cons split: nat.splits)
  qed
qed

lemma backtick_span_Some:
  assumes "backtick_span s b = Some (e, g)"
  shows "b < length s" "s ! b = CHR ''`''" "b + 2 \<le> e" "e \<le> length s"
    "s ! (e - 1) = CHR ''`''" "\<forall>i. b < i \<and> i < e - 1 \<longrightarrow> s ! i \<noteq> CHR ''`''"
    "has_close (drop (Suc b) s)"
proof -
  from assms have t: "take 1 (drop b s) = ''`''"
    and "\<exists>k. lazy_dot_until ''`'' (drop (Suc b) s) = Some k \<and> e = b + 1 + k + 1"
    unfolding backtick_span_def by (auto split: if_splits)
  then obtain k where k: "lazy_dot_until ''`'' (drop (Suc b) s) = Some k" and e: "e = b + k + 2"
    by auto
  from t show b: "b < length s"
    by (cases "b < length s") auto
  with t show "s ! b = CHR ''`''"
    by (simp add: take_Suc_conv_app_nth hd_drop_conv_nth take_Suc)
  from e show "b + 2 \<le> e" by simp
  from lazy_backtick_Some[OF k]
  have kk: "k < length s - Suc b" "drop (Suc b) s ! k = CHR ''`''"
    "\<forall>i<k. drop (Suc b) s ! i \<noteq> CHR ''`''" by simp_all
  from kk(1) e show "e \<le> length s" by simp
  from kk(1,2) e show "s ! (e - 1) = CHR ''`''" by simp
  show "\<forall>i. b < i \<and> i < e - 1 \<longrightarrow> s ! i \<noteq> CHR ''`''"
  proof (intro allI impI)
    fix i assume i: "b < i \<and> i < e - 1"
    then have "i - Suc b < k" using e by arith
    with kk(3) have ne: "drop (Suc b) s ! (i - Suc b) \<noteq> CHR ''`''" by simp
    have le: "Suc b \<le> length s" using b by simp
    have "drop (Suc b) s ! (i - Suc b) = s ! (Suc b + (i - Suc b))"
      using le by (rule nth_drop)
    also have "Suc b + (i - Suc b) = i" using i by simp
    finally show "s ! i \<noteq> CHR ''`''" using ne by simp
  qed
  from k show "has_close (drop (Suc b) s)" by (simp add: has_close_def)
qed

lemma backtick_span_opens:
  assumes "p < length s" "s ! p = CHR ''`''" "has_close (drop (Suc p) s)"
  shows "\<exists>e. backtick_span s p = Some (e, ()) \<and> p + 2 \<le> e"
proof -
  from assms(1,2) have "take 1 (drop p s) = ''`''"
    by (simp add: take_Suc hd_drop_conv_nth)
  moreover from assms(3) obtain k where "lazy_dot_until ''`'' (drop (Suc p) s) = Some k"
    by (auto simp: has_close_def)
  ultimately show ?thesis by (simp add: backtick_span_def)
qed

lemma backtick_spans_ordered:
  "ordered_from 0 (map fst (finditer backtick_span s)) (length s)"
  unfolding finditer_def
proof (rule finditer_from_ordered)
  fix p e g assume "p \<le> length s" "backtick_span s p = Some (e, g)"
  from backtick_span_Some(3,4)[OF this(2)] show "p \<le> e \<and> e \<le> length s" by simp
qed

lemma inside_span_iff:
  "inside_span s p \<longleftrightarrow> (\<exists>x\<in>set (finditer backtick_span s). fst (fst x) < p \<and> p < snd (fst x))"
  by (simp add: inside_span_def list_ex_iff)

lemma finditer_backtick_mem:
  assumes "x \<in> set (finditer backtick_span s)"
  shows "backtick_span s (fst (fst x)) = Some (snd (fst x), snd x)"
  using finditer_from_mem[of x backtick_span s 0] assms by (simp add: finditer_def)

lemma inside_span_0: "\<not> inside_span s 0"
  by (simp add: inside_span_iff)

lemma inside_span_Suc:
  assumes p: "p < length s"
  shows "inside_span s (Suc p) =
         (if inside_span s p then s ! p \<noteq> CHR ''`''
          else s ! p = CHR ''`'' \<and> has_close (drop (Suc p) s))"
proof (cases "inside_span s p")
  case True
  then obtain x where x: "x \<in> set (finditer backtick_span s)" "fst (fst x) < p" "p < snd (fst x)"
    by (auto simp: inside_span_iff)
  note sp = backtick_span_Some[OF finditer_backtick_mem[OF x(1)]]
  show ?thesis
  proof (cases "s ! p = CHR ''`''")
    case False
    with sp(5) have "p \<noteq> snd (fst x) - 1" by auto
    with x(3) have "Suc p < snd (fst x)" by simp
    with x(1,2) have "inside_span s (Suc p)"
      unfolding inside_span_iff by (intro bexI[of _ x]) simp_all
    with True False show ?thesis by simp
  next
    case tick: True
    with sp(6) x(2) have "\<not> p < snd (fst x) - 1" by blast
    with x(3) have e: "snd (fst x) = Suc p" by simp
    have "\<not> inside_span s (Suc p)"
    proof
      assume "inside_span s (Suc p)"
      then obtain y where y: "y \<in> set (finditer backtick_span s)"
        "fst (fst y) < Suc p" "Suc p < snd (fst y)"
        by (auto simp: inside_span_iff)
      from x(1) y(1) have "fst x \<in> set (map fst (finditer backtick_span s))"
        "fst y \<in> set (map fst (finditer backtick_span s))" by simp_all
      from ordered_from_disjoint[OF backtick_spans_ordered this]
      have "fst x = fst y \<or> snd (fst x) \<le> fst (fst y) \<or> snd (fst y) \<le> fst (fst x)" .
      with e y(2,3) x(2) show False by auto
    qed
    with True tick show ?thesis by simp
  qed
next
  case False
  show ?thesis
  proof (cases "s ! p = CHR ''`'' \<and> has_close (drop (Suc p) s)")
    case True
    with backtick_span_opens[OF p] obtain e where e: "backtick_span s p = Some (e, ())" "p + 2 \<le> e"
      by blast
    from False have "\<forall>x\<in>set (finditer_from backtick_span s 0). \<not> (fst (fst x) < p \<and> p < snd (fst x))"
      by (simp add: inside_span_iff finditer_def)
    from finditer_from_visits[OF _ _ e(1) this] p
    have "((p, e), ()) \<in> set (finditer backtick_span s)" by (simp add: finditer_def)
    with e(2) have "inside_span s (Suc p)"
      unfolding inside_span_iff by (intro bexI[of _ "((p, e), ())"]) simp_all
    with False True show ?thesis by simp
  next
    case no: False
    have "\<not> inside_span s (Suc p)"
    proof
      assume "inside_span s (Suc p)"
      then obtain y where y: "y \<in> set (finditer backtick_span s)"
        "fst (fst y) < Suc p" "Suc p < snd (fst y)"
        by (auto simp: inside_span_iff)
      show False
      proof (cases "fst (fst y) < p")
        case True
        with y(1,3) have "inside_span s p"
          unfolding inside_span_iff by (intro bexI[of _ y]) simp_all
        with False show False by simp
      next
        case False
        with y(2) have b: "fst (fst y) = p" by simp
        from backtick_span_Some(2,7)[OF finditer_backtick_mem[OF y(1)]] b no
        show False by simp
      qed
    qed
    with False no show ?thesis by simp
  qed
qed

subsection \<open>The underscore stage as one pass\<close>

lemma foldr_escape:
  "ordered_from pos (map fst ms) (length s) \<Longrightarrow>
   foldr (\<lambda>m acc. take (fst (fst m)) acc @ [CHR 0x5C, CHR ''_''] @ drop (snd (fst m)) acc) ms s
     = take pos s @ escape_render s pos (map fst ms)"
proof (induction ms arbitrary: pos)
  case Nil
  then show ?case by simp
next
  case (Cons m ms)
  obtain b e g where m: "m = ((b, e), g)" by (metis prod.exhaust)
  from Cons.prems m have o: "pos \<le> b" "b \<le> e" "e \<le> length s"
    and rest: "ordered_from e (map fst ms) (length s)" by auto
  let ?R = "escape_render s e (map fst ms)"
  let ?X = "[CHR 0x5C, CHR ''_'']"
  from Cons.IH[OF rest]
  have "foldr (\<lambda>m acc. take (fst (fst m)) acc @ ?X @ drop (snd (fst m)) acc) (m # ms) s
        = take b (take e s @ ?R) @ ?X @ drop e (take e s @ ?R)" by (simp add: m)
  also have "take b (take e s @ ?R) = take b s" using o by (simp add: min_def)
  also have "drop e (take e s @ ?R) = ?R" using o by simp
  also have "take b s @ ?X @ ?R = take pos s @ escape_render s pos (map fst (m # ms))"
    using o(1) by (simp add: m take_slice[symmetric])
  finally show ?case .
qed

lemma inner_underscore_Some:
  assumes "inner_underscore s p = Some (e, g)"
  shows "e = Suc p" "0 < p" "Suc p < length s" "s ! p = CHR ''_''"
    "is_word (s ! (p - 1))" "is_word (s ! Suc p)"
  using assms unfolding inner_underscore_def by (simp_all split: if_splits)

lemma inner_underscore_None:
  assumes "inner_underscore s p = None"
  shows "\<not> (0 < p \<and> Suc p < length s \<and> s ! p = CHR ''_'' \<and> is_word (s ! (p - 1)) \<and> is_word (s ! Suc p))"
  using assms unfolding inner_underscore_def by (simp split: if_splits)

lemma inner_underscore_ordered:
  "ordered_from p (map fst (finditer_from inner_underscore s p)) (length s)"
proof (rule finditer_from_ordered)
  fix q e g assume "q \<le> length s" "inner_underscore s q = Some (e, g)"
  from inner_underscore_Some(1,3)[OF this(2)] show "q \<le> e \<and> e \<le> length s" by simp
qed

lemma backtick_not_word: "\<not> is_word CHR ''`''"
  by (simp add: is_word_def)

lemma backslash_not_word: "\<not> is_word CHR 0x5C"
  by (simp add: is_word_def)

lemma underscore_is_word: "is_word CHR ''_''"
  by (simp add: is_word_def)

lemma not_in_backticks_iff:
  assumes iu: "inner_underscore s p = Some (e, g)"
  shows "not_in_backticks s (p, e) \<longleftrightarrow> \<not> inside_span s p"
proof -
  note u = inner_underscore_Some[OF iu]
  have "spans_intersect (p, e) (fst x) \<longleftrightarrow> fst (fst x) < p \<and> p < snd (fst x)"
    if x: "x \<in> set (finditer backtick_span s)" for x
  proof -
    note sp = backtick_span_Some[OF finditer_backtick_mem[OF x]]
    obtain b e' where be: "fst x = (b, e')" by (metis prod.exhaust)
    from sp be have b: "s ! b = CHR ''`''" "b + 2 \<le> e'" "s ! (e' - 1) = CHR ''`''" by simp_all
    have si: "spans_intersect (p, e) (b, e') \<longleftrightarrow> b \<le> Suc p \<and> p \<le> e'"
      using b(2) u(1) by (auto simp: spans_intersect_def sorted_pair_def)
    have nb: "b \<noteq> p" "b \<noteq> Suc p" "b \<noteq> p - 1"
      using b(1) u(4,5,6) backtick_not_word by auto
    have ne: "e' - 1 \<noteq> p" "e' - 1 \<noteq> Suc p" "e' - 1 \<noteq> p - 1"
      using b(3) u(4,5,6) backtick_not_word by auto
    show ?thesis unfolding be fst_conv snd_conv si using nb ne b(2) u(2) by arith
  qed
  then show ?thesis
    unfolding not_in_backticks_def inside_span_iff list_ex_iff by blast
qed

lemma escape_render_shift:
  assumes "ordered_from (Suc p) ms n" "p < length s"
  shows "escape_render s p ms = s ! p # escape_render s (Suc p) ms"
proof (cases ms)
  case Nil
  with assms(2) show ?thesis by (simp add: Cons_nth_drop_Suc)
next
  case (Cons m ms')
  with assms(1) have "Suc p \<le> fst m" by simp
  then have "fst m - p = Suc (fst m - Suc p)" by arith
  with assms(2) have "slice p (fst m) s = s ! p # slice (Suc p) (fst m) s"
    by (simp add: slice_def Cons_nth_drop_Suc[symmetric])
  with Cons show ?thesis by simp
qed

lemma finditer_from_end:
  assumes "\<And>e g. m s (length s) \<noteq> Some (e, g)"
  shows "finditer_from m s (length s) = []"
proof -
  from assms have n: "m s (length s) = None" by (cases "m s (length s)") auto
  have "finditer_from m s (Suc (length s)) = []" by (subst finditer_from.simps) simp
  with n show ?thesis by (subst finditer_from.simps) simp
qed

lemma escape_pass_bridge:
  fixes s :: string
  defines "Q \<equiv> \<lambda>m. not_in_backticks s (fst m)"
  assumes "p \<le> length s"
  shows "escape_render s p (map fst (filter Q (finditer_from inner_underscore s p)))
         = escape_pass (inside_span s p) (0 < p \<and> is_word (s ! (p - 1))) (drop p s)"
  using assms(2)
proof (induction k \<equiv> "length s - p" arbitrary: p)
  case 0
  then have p: "p = length s" by simp
  have "finditer_from inner_underscore s (length s) = []"
    by (rule finditer_from_end) (auto dest: inner_underscore_Some(3))
  with p show ?case by simp
next
  case (Suc k)
  then have p: "p < length s" and k: "k = length s - Suc p" and le: "Suc p \<le> length s" by simp_all
  let ?c = "s ! p" and ?cs = "drop (Suc p) s"
  let ?L = "map fst (filter Q (finditer_from inner_underscore s (Suc p)))"
  have dr: "drop p s = ?c # ?cs" using p by (simp add: Cons_nth_drop_Suc)
  have IH: "escape_render s (Suc p) ?L = escape_pass (inside_span s (Suc p)) (is_word ?c) ?cs"
    using Suc.hyps(1)[OF k le] by simp
  have ord: "ordered_from (Suc p) ?L (length s)"
    by (intro ordered_from_filter inner_underscore_ordered)
  note shift = escape_render_shift[OF ord p]
  note step = inside_span_Suc[OF p]
  show ?case
  proof (cases "inner_underscore s p")
    case None
    then have fi: "finditer_from inner_underscore s p = finditer_from inner_underscore s (Suc p)"
      using p by (subst finditer_from.simps) simp
    note no = inner_underscore_None[OF None]
    have lhs: "escape_render s p (map fst (filter Q (finditer_from inner_underscore s p)))
               = ?c # escape_pass (inside_span s (Suc p)) (is_word ?c) ?cs"
      unfolding fi shift IH ..
    show ?thesis
    proof (cases "inside_span s p")
      case True
      with step have "inside_span s (Suc p) = (?c \<noteq> CHR ''`'')" by simp
      with True show ?thesis unfolding lhs dr by simp
    next
      case False
      show ?thesis
      proof (cases "?c = CHR ''`'' \<and> has_close ?cs")
        case True
        with step False have "inside_span s (Suc p)" by simp
        with True False show ?thesis unfolding lhs dr by simp
      next
        case nb: False
        with step False have ns: "\<not> inside_span s (Suc p)" by simp
        have "\<not> (?c = CHR ''_'' \<and> (0 < p \<and> is_word (s ! (p - 1))) \<and> ?cs \<noteq> [] \<and> is_word (hd ?cs))"
        proof
          assume a: "?c = CHR ''_'' \<and> (0 < p \<and> is_word (s ! (p - 1))) \<and> ?cs \<noteq> [] \<and> is_word (hd ?cs)"
          then have "Suc p < length s" by simp
          moreover from this have "hd ?cs = s ! Suc p" by (simp add: hd_drop_conv_nth)
          ultimately show False using a no by simp
        qed
        with nb ns False show ?thesis unfolding lhs dr by auto
      qed
    qed
  next
    case (Some eg)
    obtain e g where eg: "eg = (e, g)" by (cases eg)
    note u = inner_underscore_Some[OF Some[unfolded eg]]
    have fi: "finditer_from inner_underscore s p
              = ((p, Suc p), g) # finditer_from inner_underscore s (Suc p)"
      using p Some eg u(1) by (subst finditer_from.simps) simp
    have hd: "?cs \<noteq> []" "hd ?cs = s ! Suc p" using u(3) by (simp_all add: hd_drop_conv_nth)
    have tick: "?c \<noteq> CHR ''`''" using u(4) by simp
    have qi: "Q ((p, Suc p), g) \<longleftrightarrow> \<not> inside_span s p"
      using not_in_backticks_iff[OF Some[unfolded eg]] u(1) by (simp add: Q_def)
    show ?thesis
    proof (cases "inside_span s p")
      case True
      with qi have f: "filter Q (finditer_from inner_underscore s p)
                    = filter Q (finditer_from inner_underscore s (Suc p))"
        unfolding fi by simp
      have lhs: "escape_render s p (map fst (filter Q (finditer_from inner_underscore s p)))
               = ?c # escape_pass (inside_span s (Suc p)) (is_word ?c) ?cs"
        unfolding f shift IH ..
      from step True tick have "inside_span s (Suc p)" by simp
      with True tick show ?thesis unfolding lhs dr by simp
    next
      case False
      with qi have "filter Q (finditer_from inner_underscore s p)
                    = ((p, Suc p), g) # filter Q (finditer_from inner_underscore s (Suc p))"
        unfolding fi by simp
      then have lhs: "escape_render s p (map fst (filter Q (finditer_from inner_underscore s p)))
               = CHR 0x5C # CHR ''_'' # escape_pass (inside_span s (Suc p)) (is_word ?c) ?cs"
        using IH by (simp add: slice_def)
      from step False tick have "\<not> inside_span s (Suc p)" by simp
      with False tick u hd show ?thesis unfolding lhs dr by simp
    qed
  qed
qed

lemma format_inner_underscores_pass:
  assumes "finditer link_pattern s = []"
  shows "format_inner_underscores s = escape_pass False False s"
proof -
  let ?Q = "\<lambda>m. not_in_backticks s (fst m)"
  let ?ms = "filter ?Q (finditer_from inner_underscore s 0)"
  from assms have "not_in_link s sp" for sp by (simp add: not_in_link_def)
  then have fm: "filter_matches inner_underscore s None = ?ms"
    by (simp add: filter_matches_def finditer_def)
  have ord: "ordered_from 0 (map fst ?ms) (length s)"
    by (intro ordered_from_filter inner_underscore_ordered)
  have "format_inner_underscores s
        = foldr (\<lambda>m acc. take (fst (fst m)) acc @ [CHR 0x5C, CHR ''_''] @ drop (snd (fst m)) acc) ?ms s"
    unfolding format_inner_underscores_def fm by (simp add: foldr_conv_foldl)
  also have "\<dots> = escape_render s 0 (map fst ?ms)"
    using foldr_escape[OF ord] by simp
  also have "\<dots> = escape_pass (inside_span s 0) (0 < (0::nat) \<and> is_word (s ! (0 - 1))) (drop 0 s)"
    by (rule escape_pass_bridge) simp
  finally show ?thesis by (simp add: inside_span_0)
qed

lemma has_close_Nil: "\<not> has_close []"
  by (simp add: has_close_def)

lemma has_close_Cons:
  "has_close (c # cs) \<longleftrightarrow> c = CHR ''`'' \<or> (c \<noteq> newline \<and> has_close cs)"
  by (auto simp: has_close_def)

lemma has_close_escape_pass: "has_close (escape_pass st pw cs) = has_close cs"
  by (induction st pw cs rule: escape_pass.induct)
     (auto simp: has_close_Nil has_close_Cons newline_def)

lemma escape_pass_Nil_iff: "escape_pass st pw cs = [] \<longleftrightarrow> cs = []"
  by (cases "(st, pw, cs)" rule: escape_pass.cases) auto

lemma hd_escape_pass:
  "cs \<noteq> [] \<Longrightarrow> hd (escape_pass st pw cs) = hd cs \<or> hd (escape_pass st pw cs) = CHR 0x5C"
  by (cases "(st, pw, cs)" rule: escape_pass.cases) auto

lemma escape_pass_open:
  "c = CHR ''`'' \<Longrightarrow> has_close cs \<Longrightarrow>
   escape_pass False pw (c # cs) = c # escape_pass True (is_word c) cs"
  by simp

lemma escape_pass_escape:
  "c = CHR ''_'' \<Longrightarrow> pw \<Longrightarrow> cs \<noteq> [] \<Longrightarrow> is_word (hd cs) \<Longrightarrow>
   escape_pass False pw (c # cs) = CHR 0x5C # c # escape_pass False (is_word c) cs"
  by simp

lemma escape_pass_keep:
  "\<not> (c = CHR ''`'' \<and> has_close cs) \<Longrightarrow>
   \<not> (c = CHR ''_'' \<and> pw \<and> cs \<noteq> [] \<and> is_word (hd cs)) \<Longrightarrow>
   escape_pass False pw (c # cs) = c # escape_pass False (is_word c) cs"
  by auto

lemma escape_pass_idem:
  "escape_pass st pw (escape_pass st pw cs) = escape_pass st pw cs"
proof (induction st pw cs rule: escape_pass.induct)
  case (1 inside pw)
  show ?case by simp
next
  case (2 pw c cs)
  then show ?case by simp
next
  case (3 pw c cs)
  let ?R = "escape_pass False (is_word c) cs"
  show ?case
  proof (cases "c = CHR ''`'' \<and> has_close cs")
    case True
    let ?T = "escape_pass True (is_word c) cs"
    from True have e1: "escape_pass False pw (c # cs) = c # ?T"
      by (intro escape_pass_open) simp_all
    from True have e2: "escape_pass False pw (c # ?T) = c # escape_pass True (is_word c) ?T"
      by (intro escape_pass_open) (simp_all add: has_close_escape_pass)
    show ?thesis unfolding e1 e2 "3.IH"(1)[OF True] ..
  next
    case nb: False
    show ?thesis
    proof (cases "c = CHR ''_'' \<and> pw \<and> cs \<noteq> [] \<and> is_word (hd cs)")
      case True
      from True have e1: "escape_pass False pw (c # cs) = CHR 0x5C # c # ?R"
        by (intro escape_pass_escape) simp_all
      have e2: "escape_pass False pw (CHR 0x5C # c # ?R)
                = CHR 0x5C # escape_pass False (is_word CHR 0x5C) (c # ?R)"
        by (rule escape_pass_keep) simp_all
      have e3: "escape_pass False (is_word CHR 0x5C) (c # ?R) = c # escape_pass False (is_word c) ?R"
        using True by (intro escape_pass_keep) (simp_all add: backslash_not_word)
      show ?thesis unfolding e1 e2 e3 "3.IH"(2)[OF nb True] ..
    next
      case False
      have e1: "escape_pass False pw (c # cs) = c # ?R"
        using nb False by (rule escape_pass_keep)
      have n2: "\<not> (c = CHR ''_'' \<and> pw \<and> ?R \<noteq> [] \<and> is_word (hd ?R))"
      proof
        assume a: "c = CHR ''_'' \<and> pw \<and> ?R \<noteq> [] \<and> is_word (hd ?R)"
        then have cs: "cs \<noteq> []" by (simp add: escape_pass_Nil_iff)
        from hd_escape_pass[OF cs, of False "is_word c"] a backslash_not_word
        have "is_word (hd cs)" by auto
        with a cs False show False by simp
      qed
      from nb have n1: "\<not> (c = CHR ''`'' \<and> has_close ?R)"
        by (simp add: has_close_escape_pass)
      have e2: "escape_pass False pw (c # ?R) = c # escape_pass False (is_word c) ?R"
        using n1 n2 by (rule escape_pass_keep)
      show ?thesis unfolding e1 e2 "3.IH"(3)[OF nb False] ..
    qed
  qed
qed

lemma has_pair_Cons:
  "has_pair a b (x # ys) \<longleftrightarrow> (ys \<noteq> [] \<and> x = a \<and> hd ys = b) \<or> has_pair a b ys"
  by (cases ys) auto

lemma has_pair_escape_pass:
  assumes "a \<noteq> CHR 0x5C" "b \<noteq> CHR 0x5C"
  shows "\<not> has_pair a b cs \<Longrightarrow> \<not> has_pair a b (escape_pass st pw cs)"
proof (induction st pw cs rule: escape_pass.induct)
  case (1 inside pw)
  show ?case by simp
next
  case (2 pw c cs)
  let ?R = "escape_pass (c \<noteq> CHR ''`'') (is_word c) cs"
  from "2.prems" have n: "\<not> (cs \<noteq> [] \<and> c = a \<and> hd cs = b)" "\<not> has_pair a b cs"
    by (simp_all add: has_pair_Cons)
  from "2.IH"[OF n(2)] have r: "\<not> has_pair a b ?R" .
  have "\<not> (?R \<noteq> [] \<and> c = a \<and> hd ?R = b)"
    using n(1) hd_escape_pass[of cs "c \<noteq> CHR ''`''" "is_word c"] assms(2)
    by (auto simp: escape_pass_Nil_iff)
  with r have "\<not> has_pair a b (c # ?R)" by (simp add: has_pair_Cons)
  then show ?case by simp
next
  case (3 pw c cs)
  from "3.prems" have n: "\<not> (cs \<noteq> [] \<and> c = a \<and> hd cs = b)" "\<not> has_pair a b cs"
    by (simp_all add: has_pair_Cons)
  have hdR: "\<not> (escape_pass st' pw' cs \<noteq> [] \<and> c = a \<and> hd (escape_pass st' pw' cs) = b)"
    for st' pw'
    using n(1) hd_escape_pass[of cs st' pw'] assms(2)
    by (auto simp: escape_pass_Nil_iff)
  have keep: "\<not> has_pair a b (c # escape_pass st' pw' cs)"
    if "\<not> has_pair a b (escape_pass st' pw' cs)" for st' pw'
    using that hdR[of st' pw'] by (simp add: has_pair_Cons)
  show ?case
  proof (cases "c = CHR ''`'' \<and> has_close cs")
    case True
    then have e1: "escape_pass False pw (c # cs) = c # escape_pass True (is_word c) cs"
      by (intro escape_pass_open) simp_all
    show ?thesis unfolding e1 by (rule keep) (rule "3.IH"(1)[OF True n(2)])
  next
    case nb: False
    show ?thesis
    proof (cases "c = CHR ''_'' \<and> pw \<and> cs \<noteq> [] \<and> is_word (hd cs)")
      case True
      then have e1: "escape_pass False pw (c # cs)
                     = CHR 0x5C # c # escape_pass False (is_word c) cs"
        by (intro escape_pass_escape) simp_all
      have "\<not> has_pair a b (c # escape_pass False (is_word c) cs)"
        by (rule keep) (rule "3.IH"(2)[OF nb True n(2)])
      with assms(1) show ?thesis unfolding e1 by simp
    next
      case False
      have e1: "escape_pass False pw (c # cs) = c # escape_pass False (is_word c) cs"
        using nb False by (rule escape_pass_keep)
      show ?thesis unfolding e1 by (rule keep) (rule "3.IH"(3)[OF nb False n(2)])
    qed
  qed
qed

subsection \<open>Lines without tokens stay without tokens\<close>

lemma backslash_not_space: "\<not> is_space CHR 0x5C"
  by (simp add: is_space_def)

lemma take1_escape_pass:
  assumes "take 1 s \<noteq> ''=''"
  shows "take 1 (escape_pass False pw s) \<noteq> ''=''"
proof (cases s)
  case Nil
  then show ?thesis by simp
next
  case (Cons c cs)
  with assms have c: "c \<noteq> CHR ''=''" by simp
  from Cons have ne: "escape_pass False pw s \<noteq> []" by (simp add: escape_pass_Nil_iff)
  from hd_escape_pass[of s False pw] Cons c have "hd (escape_pass False pw s) \<noteq> CHR ''=''"
    by auto
  with ne show ?thesis by (cases "escape_pass False pw s") simp_all
qed

lemma ordered_item_iff:
  "ordered_item s \<longleftrightarrow>
   (\<exists>c d r. dropWhile is_space s = c # d # r \<and> c \<in> set ''|+'' \<and> is_space d)"
proof -
  define i where "i = length (takeWhile is_space s)"
  define t where "t = dropWhile is_space s"
  have s: "s = takeWhile is_space s @ t" by (simp add: t_def)
  have len: "length s = i + length t"
    by (subst s) (simp add: i_def)
  have nth: "s ! (i + k) = t ! k" for k
    by (subst s) (simp add: i_def)
  have lim: "list_item_match s =
     (if Suc i < length s \<and> s ! i \<in> set ''-|+'' \<and> is_space (s ! Suc i) then Some i else None)"
    by (simp add: list_item_match_def i_def Let_def)
  show ?thesis
  proof (cases t)
    case Nil
    with len lim show ?thesis by (simp add: ordered_item_def t_def[symmetric])
  next
    case (Cons c t')
    show ?thesis
    proof (cases t')
      case Nil
      with Cons len lim show ?thesis by (simp add: ordered_item_def t_def[symmetric])
    next
      case (Cons d r)
      with \<open>t = c # t'\<close> have t: "t = c # d # r" by simp
      from nth[of 0] nth[of 1] t have n: "s ! i = c" "s ! Suc i = d" by simp_all
      from len t have "Suc i < length s" by simp
      with lim n have "list_item_match s = (if c \<in> set ''-|+'' \<and> is_space d then Some i else None)"
        by simp
      with n(1) t show ?thesis
        by (auto simp: ordered_item_def t_def[symmetric])
    qed
  qed
qed

lemma dropWhile_space_escape_pass:
  "\<exists>pw'. dropWhile is_space (escape_pass False pw s) = escape_pass False pw' (dropWhile is_space s)"
proof (induction s arbitrary: pw)
  case Nil
  show ?case by simp
next
  case (Cons c cs)
  show ?case
  proof (cases "is_space c")
    case True
    then have "c \<noteq> CHR ''`''" "c \<noteq> CHR ''_''" by (auto simp: is_space_def)
    then have "escape_pass False pw (c # cs) = c # escape_pass False (is_word c) cs"
      by (intro escape_pass_keep) simp_all
    with True Cons.IH[of "is_word c"] show ?thesis by simp
  next
    case False
    from hd_escape_pass[of "c # cs" False pw] False backslash_not_space
    have "\<not> is_space (hd (escape_pass False pw (c # cs)))" by auto
    moreover have "escape_pass False pw (c # cs) \<noteq> []" by (simp add: escape_pass_Nil_iff)
    ultimately have "dropWhile is_space (escape_pass False pw (c # cs)) = escape_pass False pw (c # cs)"
      by (cases "escape_pass False pw (c # cs)") simp_all
    with False show ?thesis by auto
  qed
qed

lemma ordered_item_escape_pass:
  assumes "\<not> ordered_item s"
  shows "\<not> ordered_item (escape_pass False pw s)"
proof
  assume "ordered_item (escape_pass False pw s)"
  then obtain c' d' r' where o: "dropWhile is_space (escape_pass False pw s) = c' # d' # r'"
    "c' \<in> set ''|+''" "is_space d'"
    unfolding ordered_item_iff by blast
  from dropWhile_space_escape_pass[of pw s] obtain pw' where
    "dropWhile is_space (escape_pass False pw s) = escape_pass False pw' (dropWhile is_space s)" ..
  with o(1) have e: "escape_pass False pw' (dropWhile is_space s) = c' # d' # r'" by simp
  then obtain c cs where t: "dropWhile is_space s = c # cs"
    by (cases "dropWhile is_space s") auto
  let ?R = "escape_pass False (is_word c) cs"
  from o(2) have m: "c' \<noteq> CHR ''`''" "c' \<noteq> CHR 0x5C" by auto
  have nb: "\<not> (c = CHR ''`'' \<and> has_close cs)"
  proof
    assume "c = CHR ''`'' \<and> has_close cs"
    then have "escape_pass False pw' (c # cs) = c # escape_pass True (is_word c) cs"
      and "c = CHR ''`''" by simp_all
    with e t m(1) show False by simp
  qed
  have ne: "\<not> (c = CHR ''_'' \<and> pw' \<and> cs \<noteq> [] \<and> is_word (hd cs))"
  proof
    assume "c = CHR ''_'' \<and> pw' \<and> cs \<noteq> [] \<and> is_word (hd cs)"
    then have "escape_pass False pw' (c # cs) = CHR 0x5C # c # ?R"
      by (intro escape_pass_escape) simp_all
    with e t m(2) show False by simp
  qed
  have k: "escape_pass False pw' (c # cs) = c # ?R" using nb ne by (rule escape_pass_keep)
  from e have cR: "c # ?R = c' # d' # r'" unfolding t k .
  from cR have c: "c = c'" by (rule list.inject[THEN iffD1, THEN conjunct1])
  from cR have R: "?R = d' # r'" by (rule list.inject[THEN iffD1, THEN conjunct2])
  from R have cs: "cs \<noteq> []" by (auto simp: escape_pass_Nil_iff[symmetric])
  from hd_escape_pass[OF cs, of False "is_word c"] R o(3) backslash_not_space
  have "is_space (hd cs)" by auto
  with cs obtain d r where "cs = d # r" "is_space d" by (cases cs) auto
  with t c o(2) have "ordered_item s" unfolding ordered_item_iff by blast
  with assms show False by simp
qed

lemma pair_count_Cons:
  "pair_count a b (x # ys) = (if ys \<noteq> [] \<and> x = a \<and> hd ys = b then 1 else 0) + pair_count a b ys"
  by (cases ys) auto

lemma pair_count_escape_pass:
  assumes "a \<noteq> CHR 0x5C" "b \<noteq> CHR 0x5C"
  shows "pair_count a b (escape_pass st pw cs) \<le> pair_count a b cs"
proof (induction st pw cs rule: escape_pass.induct)
  case (1 inside pw)
  show ?case by simp
next
  case (2 pw c cs)
  let ?R = "escape_pass (c \<noteq> CHR ''`'') (is_word c) cs"
  have "?R \<noteq> [] \<and> c = a \<and> hd ?R = b \<Longrightarrow> cs \<noteq> [] \<and> c = a \<and> hd cs = b"
    using hd_escape_pass[of cs "c \<noteq> CHR ''`''" "is_word c"] assms(2)
    by (auto simp: escape_pass_Nil_iff)
  with "2.IH" have "pair_count a b (c # ?R) \<le> pair_count a b (c # cs)"
    unfolding pair_count_Cons by auto
  then show ?case by simp
next
  case (3 pw c cs)
  have keep: "pair_count a b (c # escape_pass st' pw' cs) \<le> pair_count a b (c # cs)"
    if "pair_count a b (escape_pass st' pw' cs) \<le> pair_count a b cs" for st' pw'
  proof -
    have "escape_pass st' pw' cs \<noteq> [] \<and> c = a \<and> hd (escape_pass st' pw' cs) = b
          \<Longrightarrow> cs \<noteq> [] \<and> c = a \<and> hd cs = b"
      using hd_escape_pass[of cs st' pw'] assms(2) by (auto simp: escape_pass_Nil_iff)
    with that show ?thesis unfolding pair_count_Cons by auto
  qed
  show ?case
  proof (cases "c = CHR ''`'' \<and> has_close cs")
    case True
    then have e1: "escape_pass False pw (c # cs) = c # escape_pass True (is_word c) cs"
      by (intro escape_pass_open) simp_all
    show ?thesis unfolding e1 by (rule keep) (rule "3.IH"(1)[OF True])
  next
    case nb: False
    show ?thesis
    proof (cases "c = CHR ''_'' \<and> pw \<and> cs \<noteq> [] \<and> is_word (hd cs)")
      case True
      then have e1: "escape_pass False pw (c # cs)
                     = CHR 0x5C # c # escape_pass False (is_word c) cs"
        by (intro escape_pass_escape) simp_all
      have "pair_count a b (c # escape_pass False (is_word c) cs) \<le> pair_count a b (c # cs)"
        by (rule keep) (rule "3.IH"(2)[OF nb True])
      with assms(1) show ?thesis unfolding e1 by simp
    next
      case False
      have e1: "escape_pass False pw (c # cs) = c # escape_pass False (is_word c) cs"
        using nb False by (rule escape_pass_keep)
      show ?thesis unfolding e1 by (rule keep) (rule "3.IH"(3)[OF nb False])
    qed
  qed
qed

lemma pair_count_drop_Suc: "pair_count a b (drop (Suc p) s) \<le> pair_count a b (drop p s)"
proof (cases "p < length s")
  case True
  then have "drop p s = s ! p # drop (Suc p) s" by (simp add: Cons_nth_drop_Suc)
  then show ?thesis by (simp add: pair_count_Cons)
next
  case False
  then show ?thesis by simp
qed

lemma lit_pair_Some:
  assumes "lit [a, b] s p = Some (e, g)"
  shows "e = p + 2" "drop p s = a # b # drop (p + 2) s"
proof -
  from assms have t: "take 2 (drop p s) = [a, b]" and e: "e = p + 2"
    by (auto simp: lit_def numeral_2_eq_2 split: if_splits)
  from e show "e = p + 2" .
  have "drop p s = take 2 (drop p s) @ drop 2 (drop p s)"
    by (rule append_take_drop_id[symmetric])
  also have "drop 2 (drop p s) = drop (p + 2) s" by (simp add: add.commute)
  finally show "drop p s = a # b # drop (p + 2) s" unfolding t by simp
qed

lemma length_finditer_lit:
  "length (finditer_from (lit [a, b]) s p) \<le> pair_count a b (drop p s)"
proof (induction "lit [a, b]" s p rule: finditer_from.induct)
  case (1 s p)
  show ?case
  proof (cases "length s < p")
    case True
    then show ?thesis by (subst finditer_from.simps) simp
  next
    case inside: False
    show ?thesis
    proof (cases "lit [a, b] s p")
      case None
      from "1.hyps"(1)[OF inside None] pair_count_drop_Suc[of a b p s]
      have "length (finditer_from (lit [a, b]) s (Suc p)) \<le> pair_count a b (drop p s)" by simp
      with None inside show ?thesis by (subst finditer_from.simps) simp
    next
      case (Some eg)
      obtain e g where eg: "eg = (e, g)" by (cases eg)
      note l = lit_pair_Some[OF Some[unfolded eg]]
      from "1.hyps"(2)[OF inside Some eg[symmetric]] l(1)
      have "length (finditer_from (lit [a, b]) s (p + 2)) \<le> pair_count a b (drop (p + 2) s)"
        by simp
      moreover have "Suc (pair_count a b (drop (p + 2) s)) \<le> pair_count a b (drop p s)"
      proof -
        have "pair_count a b (drop p s) = pair_count a b (a # b # drop (p + 2) s)"
          using l(2) by (rule arg_cong)
        also have "\<dots> = Suc (pair_count a b (b # drop (p + 2) s))" by simp
        finally show ?thesis by (simp add: pair_count_Cons)
      qed
      moreover have "finditer_from (lit [a, b]) s p = ((p, e), g) # finditer_from (lit [a, b]) s (p + 2)"
        using Some eg inside l(1) by (subst finditer_from.simps) simp
      ultimately show ?thesis by simp
    qed
  qed
qed

lemma sub_balanced_delims_one_pair:
  assumes "pair_count a b s \<le> 1"
  shows "sub_balanced_delims (lit [a, b]) sub s preds = s"
proof -
  let ?ms = "filter_matches (lit [a, b]) s preds"
  have "length ?ms \<le> length (finditer (lit [a, b]) s)"
    by (simp add: filter_matches_def)
  also have "\<dots> \<le> pair_count a b s"
    using length_finditer_lit[of a b s 0] by (simp add: finditer_def)
  finally have "length ?ms \<le> 1" using assms by simp
  then have "zip_self ?ms = []"
    by (cases ?ms rule: zip_self.cases) simp_all
  then show ?thesis by (simp add: sub_balanced_delims_def split_beta)
qed

lemma escape_pass_keeps_token_free:
  assumes "no_rednotebook_tokens s"
  shows "no_rednotebook_tokens (escape_pass False pw s)"
proof -
  from assms have a: "pair_count CHR ''/'' CHR ''/'' s \<le> 1" "pair_count CHR ''-'' CHR ''-'' s \<le> 1"
    "pair_count CHR ''`'' CHR ''`'' s \<le> 1" "\<not> has_pair CHR 0x22 CHR 0x22 s"
    "take 1 s \<noteq> ''=''" "\<not> ordered_item s"
    unfolding no_rednotebook_tokens_def by blast+
  have "pair_count CHR ''/'' CHR ''/'' (escape_pass False pw s) \<le> 1"
    using a(1) pair_count_escape_pass[of "CHR ''/''" "CHR ''/''" False pw s] by simp
  moreover have "pair_count CHR ''-'' CHR ''-'' (escape_pass False pw s) \<le> 1"
    using a(2) pair_count_escape_pass[of "CHR ''-''" "CHR ''-''" False pw s] by simp
  moreover have "pair_count CHR ''`'' CHR ''`'' (escape_pass False pw s) \<le> 1"
    using a(3) pair_count_escape_pass[of "CHR ''`''" "CHR ''`''" False pw s] by simp
  moreover have "\<not> has_pair CHR 0x22 CHR 0x22 (escape_pass False pw s)"
    using a(4) by (intro has_pair_escape_pass) simp_all
  moreover note take1_escape_pass[OF a(5), of pw] ordered_item_escape_pass[OF a(6), of pw]
  ultimately show ?thesis unfolding no_rednotebook_tokens_def by blast
qed

subsection \<open>The stages on lines without tokens\<close>

lemma has_pair_drop: "has_pair a b (drop n s) \<Longrightarrow> has_pair a b s"
proof (induction s arbitrary: n)
  case Nil
  then show ?case by simp
next
  case (Cons x xs)
  show ?case
  proof (cases n)
    case 0
    with Cons.prems show ?thesis by simp
  next
    case (Suc k)
    with Cons.prems have "has_pair a b (drop k xs)" by simp
    from Cons.IH[OF this] show ?thesis by (simp add: has_pair_Cons)
  qed
qed

lemma has_pair_take2: "take 2 s = [a, b] \<Longrightarrow> has_pair a b s"
proof (cases s)
  case Nil
  assume "take 2 s = [a, b]"
  with Nil show ?thesis by simp
next
  case (Cons x xs)
  assume "take 2 s = [a, b]"
  with Cons show ?thesis by (cases xs) (simp_all add: numeral_2_eq_2)
qed

lemma link_groups_None:
  "\<not> has_pair CHR 0x22 CHR 0x22 s \<Longrightarrow> link_groups k s = None"
proof (induction s arbitrary: k)
  case Nil
  show ?case by simp
next
  case (Cons c cs)
  have n3: "take 3 (c # cs) \<noteq> [CHR '' '', CHR 0x22, CHR 0x22]"
  proof
    assume "take 3 (c # cs) = [CHR '' '', CHR 0x22, CHR 0x22]"
    then have "take 2 cs = [CHR 0x22, CHR 0x22]" by (simp add: numeral_3_eq_3 numeral_2_eq_2)
    then have "has_pair CHR 0x22 CHR 0x22 cs" by (rule has_pair_take2)
    with Cons.prems show False by (simp add: has_pair_Cons)
  qed
  have "link_groups k (c # cs) = (if c = CHR '']'' then None else link_groups (Suc k) cs)"
    by (simp only: link_groups.simps n3 if_False option.case)
  moreover from Cons.prems have "\<not> has_pair CHR 0x22 CHR 0x22 cs" by (simp add: has_pair_Cons)
  note Cons.IH[OF this, of "Suc k"]
  ultimately show ?case by simp
qed

lemma no_quotes_no_link:
  assumes "\<not> has_pair CHR 0x22 CHR 0x22 s"
  shows "finditer link_pattern s = []"
  unfolding finditer_def
proof (rule finditer_from_all_None)
  fix p
  from assms have "\<not> has_pair CHR 0x22 CHR 0x22 (drop (p + 1) s)"
    using has_pair_drop by blast
  then have "link_groups 0 (drop (p + 1) s) = None" by (rule link_groups_None)
  then show "link_pattern s p = None" by (simp add: link_pattern_def)
qed

lemma no_quotes_no_image:
  assumes "\<not> has_pair CHR 0x22 CHR 0x22 s"
  shows "finditer image_pattern s = []"
  unfolding finditer_def
proof (rule finditer_from_all_None)
  fix p
  have "take 3 (drop p s) \<noteq> [CHR ''['', CHR 0x22, CHR 0x22]"
  proof
    assume a: "take 3 (drop p s) = [CHR ''['', CHR 0x22, CHR 0x22]"
    then obtain r where "drop p s = CHR ''['' # r" "take 2 r = [CHR 0x22, CHR 0x22]"
      by (cases "drop p s") (auto simp: numeral_3_eq_3 numeral_2_eq_2)
    then have "has_pair CHR 0x22 CHR 0x22 (drop p s)"
      using has_pair_take2[of r] by (simp add: has_pair_Cons)
    with assms has_pair_drop show False by blast
  qed
  then show "image_pattern s p = None" by (simp add: image_pattern_def)
qed

lemma format_links_no_quotes: "\<not> has_pair CHR 0x22 CHR 0x22 s \<Longrightarrow> format_links s = s"
  by (simp add: format_links_def re_sub_def no_quotes_no_link)

lemma format_images_no_quotes: "\<not> has_pair CHR 0x22 CHR 0x22 s \<Longrightarrow> format_images s = s"
  by (simp add: format_images_def re_sub_def no_quotes_no_image)

lemma format_headers_no_start: "take 1 s \<noteq> ''='' \<Longrightarrow> format_headers padding s = s"
  by (cases s) (simp_all add: format_headers_def start_delim_def)

lemma format_lists_unordered:
  assumes "\<not> ordered_item s"
  shows "\<exists>st'. format_lists st s = Inr (s, st')"
proof (cases "list_item_match s")
  case None
  then show ?thesis by (simp add: format_lists_def Let_def)
next
  case (Some i)
  with assms have "s ! i = CHR ''-''" by (simp add: ordered_item_def)
  moreover from Some have "i < length s" by (rule list_item_match_bound)
  ultimately show ?thesis using Some by (simp add: format_lists_def getitem_def)
qed

lemma pipeline_on_token_free:
  assumes "no_rednotebook_tokens s"
  shows "\<exists>st'. format_rednotebook_as_markdown padding st s = Inr (escape_pass False False s, st')"
proof -
  let ?E = "escape_pass False False s"
  from assms have q: "\<not> has_pair CHR 0x22 CHR 0x22 s"
    unfolding no_rednotebook_tokens_def by blast
  from escape_pass_keeps_token_free[OF assms, of False]
  have a: "pair_count CHR ''/'' CHR ''/'' ?E \<le> 1" "pair_count CHR ''-'' CHR ''-'' ?E \<le> 1"
    "pair_count CHR ''`'' CHR ''`'' ?E \<le> 1" "\<not> has_pair CHR 0x22 CHR 0x22 ?E"
    "take 1 ?E \<noteq> ''=''" "\<not> ordered_item ?E"
    unfolding no_rednotebook_tokens_def by blast+
  have 1: "format_inner_underscores s = ?E"
    by (rule format_inner_underscores_pass) (rule no_quotes_no_link[OF q])
  have 2: "format_links ?E = ?E" using a(4) by (rule format_links_no_quotes)
  have 3: "format_images ?E = ?E" using a(4) by (rule format_images_no_quotes)
  have 4: "format_headers padding ?E = ?E" using a(5) by (rule format_headers_no_start)
  have 5: "format_code_blocks ?E = ?E"
    unfolding format_code_blocks_def using a(3) by (rule sub_balanced_delims_one_pair)
  have 6: "format_italic_text ?E = ?E"
    unfolding format_italic_text_def using a(1) by (rule sub_balanced_delims_one_pair)
  have 7: "format_strikethrough_text ?E = ?E"
    unfolding format_strikethrough_text_def
    using sub_balanced_delims_one_pair[OF a(2)] by simp
  from format_lists_unordered[OF a(6), of st] obtain st' where
    8: "format_lists st ?E = Inr (?E, st')" ..
  show ?thesis
    unfolding format_rednotebook_as_markdown_def 1 2 3 4 5 6 7 8 by blast
qed

text \<open>
  Claim C8. For every line without RedNotebook tokens (no pair of \<open>//\<close>, of \<open>--\<close> or of
  doubled backticks, no doubled double quote, no leading \<open>=\<close>, no ordered list marker),
  every padding and every state of the list stage, the line that the pipeline returns comes
  back unchanged when it is sent through the pipeline a second time. In particular the
  escaped underscore of \<open>a\_b\<close> is not escaped again and the header \<open># Title\<close> gets no
  further \<open>#\<close>.
\<close>

theorem pipeline_idempotent_without_tokens:
  "(no_rednotebook_tokens line \<and>
    format_rednotebook_as_markdown padding st line = Inr (out1, st1) \<and>
    format_rednotebook_as_markdown padding st1 out1 = Inr (out2, st2)
    \<longrightarrow> out2 = out1)
   \<and> format_rednotebook_as_markdown 0 init_list_state [CHR ''a'', CHR 0x5C, CHR ''_'', CHR ''b'']
     = Inr ([CHR ''a'', CHR 0x5C, CHR ''_'', CHR ''b''],
            \<lparr>ordered_list_history = [], sequential_empty_lines = 0\<rparr>)
   \<and> format_rednotebook_as_markdown 0 init_list_state ''# Title''
     = Inr (''# Title'', \<lparr>ordered_list_history = [], sequential_empty_lines = 0\<rparr>)"
proof (intro conjI impI)
  assume h: "no_rednotebook_tokens line \<and>
    format_rednotebook_as_markdown padding st line = Inr (out1, st1) \<and>
    format_rednotebook_as_markdown padding st1 out1 = Inr (out2, st2)"
  let ?E = "escape_pass False False line"
  from h pipeline_on_token_free[of line padding st] have o1: "out1 = ?E" by auto
  from h have "no_rednotebook_tokens ?E" by (intro escape_pass_keeps_token_free) simp
  from pipeline_on_token_free[OF this, of padding st1] h o1
  have "out2 = escape_pass False False ?E" by auto
  with o1 show "out2 = out1" by (simp add: escape_pass_idem)
qed code_simp+


theorem pipeline_idempotent_without_tokens_witness:
  "no_rednotebook_tokens ''[x](http://y) `a_b` c_d'' \<and>
   format_rednotebook_as_markdown 0 init_list_state ''[x](http://y) `a_b` c_d''
     = Inr (''[x](http://y) `a_b` c'' @ [CHR 0x5C] @ ''_d'',
            \<lparr>ordered_list_history = [], sequential_empty_lines = 0\<rparr>) \<and>
   fst (projr (format_rednotebook_as_markdown 0
                 \<lparr>ordered_list_history = [], sequential_empty_lines = 0\<rparr>
                 (''[x](http://y) `a_b` c'' @ [CHR 0x5C] @ ''_d'')))
     = ''[x](http://y) `a_b` c'' @ [CHR 0x5C] @ ''_d''"
proof -
  let ?L = "''[x](http://y) `a_b` c_d''"
  let ?O = "''[x](http://y) `a_b` c'' @ [CHR 0x5C] @ ''_d''"
  let ?S = "\<lparr>ordered_list_history = [], sequential_empty_lines = 0\<rparr>"
  have a: "no_rednotebook_tokens ?L" by code_simp
  have b: "format_rednotebook_as_markdown 0 init_list_state ?L = Inr (?O, ?S)" by code_simp
  have "\<exists>out st'. format_rednotebook_as_markdown 0 ?S ?O = Inr (out, st')"
    unfolding format_rednotebook_as_markdown_def by (rule format_lists_total)
  then obtain out2 st2 where c: "format_rednotebook_as_markdown 0 ?S ?O = Inr (out2, st2)"
    by blast
  from pipeline_idempotent_without_tokens[of ?L 0 init_list_state ?O ?S out2 st2] a b c have "out2 = ?O" by blast
  with a b c show ?thesis by simp
qed

end
